theory Spec2Isabelle
  imports Complex_Main
begin

section \<open>Tetris: the simulation core of tetris.py\<close>

text \<open>
  A shallow embedding of the game logic of \<^verbatim>\<open>src/tetris.py\<close>: the shape tables, the
  helper functions \<^verbatim>\<open>shape_cells\<close>, \<^verbatim>\<open>make_grid\<close>, \<^verbatim>\<open>valid_space\<close> and
  \<^verbatim>\<open>clear_lines\<close>, the class \<^verbatim>\<open>Piece\<close> and the state-changing methods of the class
  \<^verbatim>\<open>Tetris\<close>. Drawing, fonts and the window are left out: they read the state only.

  Python's unbounded integers are \<open>int\<close>. A dictionary keyed by coordinate pairs is a
  map from pairs to colours. The two sources of input from outside the program are made
  explicit arguments: the key that \<^verbatim>\<open>random.choice(PIECE_KEYS)\<close> draws, and the events
  and clock of a frame.
\<close>

subsection \<open>Configuration\<close>

type_synonym color = "nat \<times> nat \<times> nat"
type_synonym shape = "string list"
type_synonym cell = "int \<times> int"
type_synonym locked = "cell \<Rightarrow> color option"
type_synonym grid = "color option list list"

definition COLUMNS :: int where
  "COLUMNS = 10"

definition ROWS :: int where
  "ROWS = 20"

definition COLORS :: "color list" where
  "COLORS = [(0, 240, 240), (0, 0, 240), (240, 160, 0), (240, 240, 0),
             (0, 240, 0), (160, 0, 240), (240, 0, 0)]"

text \<open>
  The keys of the dictionary \<^verbatim>\<open>TETROMINOES\<close> are the seven one-letter strings
  \<^verbatim>\<open>'I', 'J', 'L', 'O', 'S', 'T', 'Z'\<close>; no other key is ever built, so they are the
  constructors of a datatype (\<open>KO\<close> is the key \<^verbatim>\<open>'O'\<close>, and so on).
\<close>

datatype piece_key = KI | KJ | KL | KO | KS | KT | KZ

fun TETROMINOES :: "piece_key \<Rightarrow> shape list" where
  "TETROMINOES KI =
     [[''0000'', ''1111'', ''0000'', ''0000''],
      [''0010'', ''0010'', ''0010'', ''0010'']]"
| "TETROMINOES KJ =
     [[''100'', ''111'', ''000''],
      [''011'', ''010'', ''010''],
      [''000'', ''111'', ''001''],
      [''010'', ''010'', ''110'']]"
| "TETROMINOES KL =
     [[''001'', ''111'', ''000''],
      [''010'', ''010'', ''011''],
      [''000'', ''111'', ''100''],
      [''110'', ''010'', ''010'']]"
| "TETROMINOES KO =
     [[''11'', ''11'']]"
| "TETROMINOES KS =
     [[''011'', ''110'', ''000''],
      [''010'', ''011'', ''001'']]"
| "TETROMINOES KT =
     [[''010'', ''111'', ''000''],
      [''010'', ''011'', ''010''],
      [''000'', ''111'', ''010''],
      [''010'', ''110'', ''010'']]"
| "TETROMINOES KZ =
     [[''110'', ''011'', ''000''],
      [''001'', ''011'', ''010'']]"

definition PIECE_KEYS :: "piece_key list" where
  "PIECE_KEYS = [KI, KJ, KL, KO, KS, KT, KZ]"

subsection \<open>Helper functions\<close>

text \<open>Python's \<^verbatim>\<open>range(n)\<close>.\<close>

definition py_range :: "int \<Rightarrow> int list" where
  "py_range n = map int [0..<nat n]"

text \<open>\<^verbatim>\<open>xs.index(v)\<close> for a value that occurs in the list.\<close>

fun index :: "'a list \<Rightarrow> 'a \<Rightarrow> nat" where
  "index [] v = 0"
| "index (u # us) v = (if u = v then 0 else Suc (index us v))"

text \<open>
  \<^verbatim>\<open>shape_cells\<close> is a generator; the model is the list of the pairs it yields, in the
  order it yields them.
\<close>

definition shape_cells :: "shape \<Rightarrow> int \<Rightarrow> int \<Rightarrow> cell list" where
  "shape_cells sh offset_x offset_y =
     concat (map (\<lambda>(r, row).
                    map (\<lambda>(c, ch). (offset_x + int c, offset_y + int r))
                        (filter (\<lambda>(c, ch). ch = CHR ''1'') (enumerate 0 row)))
                 (enumerate 0 sh))"

text \<open>
  \<^verbatim>\<open>make_grid\<close> starts from a grid of \<^verbatim>\<open>None\<close> and stores the colour of every key of
  the dictionary that lies inside the well. Keys are unique, so the order of the
  dictionary does not matter: cell \<open>(x, y)\<close> of the grid is the dictionary's entry at
  \<open>(x, y)\<close>, if any.
\<close>

definition make_grid :: "locked \<Rightarrow> grid" where
  "make_grid lk = map (\<lambda>r. map (\<lambda>c. lk (c, r)) (py_range COLUMNS)) (py_range ROWS)"

text \<open>The loop of \<^verbatim>\<open>valid_space\<close> over the cells, with its two early returns.\<close>

fun valid_cells :: "cell list \<Rightarrow> locked \<Rightarrow> bool" where
  "valid_cells [] lk = True"
| "valid_cells ((cx, cy) # cs) lk =
     (if cx < 0 \<or> cx \<ge> COLUMNS \<or> cy \<ge> ROWS then False
      else if cy \<ge> 0 \<and> lk (cx, cy) \<noteq> None then False
      else valid_cells cs lk)"

definition valid_space :: "shape \<Rightarrow> int \<Rightarrow> int \<Rightarrow> locked \<Rightarrow> bool" where
  "valid_space sh offset_x offset_y lk = valid_cells (shape_cells sh offset_x offset_y) lk"

subsection \<open>Clearing lines\<close>

text \<open>
  The first loop of \<^verbatim>\<open>clear_lines\<close> reads the grid; its only caller passes
  \<^verbatim>\<open>make_grid(self.locked)\<close>, which has \<open>ROWS\<close> rows of \<open>COLUMNS\<close> cells, so every
  read is in range.
\<close>

definition lines_to_clear :: "grid \<Rightarrow> int list" where
  "lines_to_clear gr =
     filter (\<lambda>r. list_all (\<lambda>c. gr ! nat r ! nat c \<noteq> None) (py_range COLUMNS)) (py_range ROWS)"

text \<open>\<^verbatim>\<open>for x in range(COLUMNS): if (x, row) in locked: del locked[(x, row)]\<close>\<close>

definition delete_row :: "int \<Rightarrow> locked \<Rightarrow> locked" where
  "delete_row row lk =
     fold (\<lambda>c m. if m (c, row) \<noteq> None then m((c, row) := None) else m) (py_range COLUMNS) lk"

definition delete_rows :: "int list \<Rightarrow> locked \<Rightarrow> locked" where
  "delete_rows ls lk = fold delete_row (rev ls) lk"

text \<open>
  \<^verbatim>\<open>for x in range(COLUMNS): if (x, y) in locked: locked[(x, y + shift)] = locked.pop((x, y))\<close>:
  the right-hand side is evaluated first, so the key is removed and then the value is
  stored at the new key.
\<close>

definition shift_row :: "int \<Rightarrow> int \<Rightarrow> locked \<Rightarrow> locked" where
  "shift_row r shift lk =
     fold (\<lambda>c m. if m (c, r) \<noteq> None then (m((c, r) := None))((c, r + shift) := m (c, r)) else m)
          (py_range COLUMNS) lk"

definition shift_amount :: "int list \<Rightarrow> int \<Rightarrow> int" where
  "shift_amount ls r = int (length (filter (\<lambda>cleared. r < cleared) ls))"

definition shift_step :: "int list \<Rightarrow> int \<Rightarrow> locked \<Rightarrow> locked" where
  "shift_step ls r lk = (if shift_amount ls r > 0 then shift_row r (shift_amount ls r) lk else lk)"

definition shift_rows :: "int list \<Rightarrow> locked \<Rightarrow> locked" where
  "shift_rows ls lk =
     fold (shift_step ls) (rev (sort (filter (\<lambda>r. r < Max (set ls)) (py_range ROWS)))) lk"

text \<open>
  The dictionary is changed in place and the count is returned; the model returns both.
\<close>

definition clear_lines :: "grid \<Rightarrow> locked \<Rightarrow> int \<times> locked" where
  "clear_lines gr lk =
     (let ls = lines_to_clear gr in
      if ls = [] then (0, lk)
      else (int (length ls), shift_rows ls (delete_rows ls lk)))"

text \<open>
  A row of the dictionary is full when each of its \<open>COLUMNS\<close> cells is a key. The
  properties of \<^verbatim>\<open>clear_lines\<close> are stated with it.
\<close>

definition full_row :: "locked \<Rightarrow> int \<Rightarrow> bool" where
  "full_row lk r = list_all (\<lambda>c. lk (c, r) \<noteq> None) (py_range COLUMNS)"

text \<open>
  The state of the shifting loop of \<^verbatim>\<open>clear_lines\<close> once the rows from \<open>K\<close> up to the
  lowest cleared row have been handled, starting from the dictionary \<open>lk1\<close> (the rows
  to clear already deleted): inside the well, rows above \<open>K\<close> are untouched, every
  handled row that is kept has arrived at its target, and every other cell between \<open>K\<close>
  and the lowest cleared row is free.
\<close>

definition shift_inv :: "int list \<Rightarrow> locked \<Rightarrow> int \<Rightarrow> locked \<Rightarrow> bool" where
  "shift_inv ls lk1 K m \<longleftrightarrow>
     (\<forall>c t. \<not> (0 \<le> c \<and> c < COLUMNS) \<longrightarrow> m (c, t) = lk1 (c, t)) \<and>
     (\<forall>c t. t < K \<or> Max (set ls) < t \<longrightarrow> m (c, t) = lk1 (c, t)) \<and>
     (\<forall>c r. 0 \<le> c \<and> c < COLUMNS \<and> K \<le> r \<and> r < Max (set ls) \<and> r \<notin> set ls \<longrightarrow>
            m (c, r + shift_amount ls r) = lk1 (c, r)) \<and>
     (\<forall>c t. 0 \<le> c \<and> c < COLUMNS \<and> K \<le> t \<and> t \<le> Max (set ls) \<and>
            (\<forall>r. K \<le> r \<and> r < Max (set ls) \<and> r \<notin> set ls \<longrightarrow> r + shift_amount ls r \<noteq> t) \<longrightarrow>
            m (c, t) = None)"

subsection \<open>The class Piece\<close>

record piece =
  ptype :: piece_key
  rotations :: "shape list"
  rotation :: int
  shape :: shape
  px :: int
  py :: int
  color :: color

text \<open>\<^verbatim>\<open>Piece.__init__\<close>; the fields \<open>px\<close> and \<open>py\<close> are \<^verbatim>\<open>self.x\<close> and \<^verbatim>\<open>self.y\<close>.\<close>

definition Piece_init :: "piece_key \<Rightarrow> piece" where
  "Piece_init type_key =
     (let rots = TETROMINOES type_key; sh = rots ! 0 in
      \<lparr> ptype = type_key, rotations = rots, rotation = 0, shape = sh,
        px = COLUMNS div 2 - int (length (sh ! 0)) div 2,
        py = - int (length sh),
        color = COLORS ! index PIECE_KEYS type_key \<rparr>)"

text \<open>The loop \<^verbatim>\<open>for dx in (-1, 1, -2, 2)\<close> of both rotations, with its early return.\<close>

fun try_kicks :: "int list \<Rightarrow> piece \<Rightarrow> locked \<Rightarrow> piece option" where
  "try_kicks [] p lk = None"
| "try_kicks (dx # dxs) p lk =
     (if valid_space (shape p) (px p + dx) (py p) lk then Some (p\<lparr>px := px p + dx\<rparr>)
      else try_kicks dxs p lk)"

text \<open>
  \<^verbatim>\<open>Piece.rotate\<close> and \<^verbatim>\<open>Piece.rotate_ccw\<close> differ in the new index only. Both set
  the new index and shape, and on failure restore the old index and the shape it
  selects. The result is the returned flag and the piece afterwards.
\<close>

definition rotate_to :: "int \<Rightarrow> piece \<Rightarrow> locked \<Rightarrow> bool \<times> piece" where
  "rotate_to new p lk =
     (let old = rotation p;
          p1 = p\<lparr>rotation := new, shape := rotations p ! nat new\<rparr> in
      if \<not> valid_space (shape p1) (px p1) (py p1) lk then
        (case try_kicks [-1, 1, -2, 2] p1 lk of
           Some p2 \<Rightarrow> (True, p2)
         | None \<Rightarrow> (False, p1\<lparr>rotation := old, shape := rotations p1 ! nat old\<rparr>))
      else (True, p1))"

definition Piece_rotate :: "piece \<Rightarrow> locked \<Rightarrow> bool \<times> piece" where
  "Piece_rotate p lk = rotate_to ((rotation p + 1) mod int (length (rotations p))) p lk"

definition Piece_rotate_ccw :: "piece \<Rightarrow> locked \<Rightarrow> bool \<times> piece" where
  "Piece_rotate_ccw p lk = rotate_to ((rotation p - 1) mod int (length (rotations p))) p lk"

text \<open>
  The state of a piece as the class keeps it: \<^verbatim>\<open>rotations\<close> is the table entry of its
  type (set once, in \<^verbatim>\<open>__init__\<close>), \<^verbatim>\<open>rotation\<close> indexes it and \<^verbatim>\<open>shape\<close> is the
  entry it selects. Every table entry is non-empty, so the modulus in the rotations is
  never zero for such a piece.
\<close>

definition piece_wf :: "piece \<Rightarrow> bool" where
  "piece_wf p \<longleftrightarrow>
     rotations p = TETROMINOES (ptype p) \<and>
     0 \<le> rotation p \<and> rotation p < int (length (rotations p)) \<and>
     shape p = rotations p ! nat (rotation p)"

subsection \<open>Python floats\<close>

text \<open>
  \<^verbatim>\<open>self.fall_speed\<close> is a Python float, an IEEE 754 binary64 number. A float is
  modelled by the real number it denotes. A decimal literal and the result of every
  arithmetic operation are the exact value rounded to the nearest number with a
  significand of 53 bits, a tie going to the even significand: \<open>round_double\<close>, with
  \<open>u\<close> the distance between neighbouring floats around the argument. The exponent
  range is not limited in the model; the floats met here are far from both ends of it
  (Python refuses to convert an integer from about \<open>2 ^ 1024\<close> on, a level that takes
  more than \<open>10 ^ 308\<close> cleared lines).
\<close>

definition round_ties_even :: "real \<Rightarrow> int" where
  "round_ties_even q =
     (let f = \<lfloor>q\<rfloor> in
      if q - of_int f < 1 / 2 then f
      else if q - of_int f > 1 / 2 then f + 1
      else if even f then f else f + 1)"

definition round_double :: "real \<Rightarrow> real" where
  "round_double x =
     (if x = 0 then 0
      else (let e = \<lfloor>log 2 \<bar>x\<bar>\<rfloor>; u = 2 powr of_int (e - 52)
            in sgn x * (of_int (round_ties_even (\<bar>x\<bar> / u)) * u)))"

text \<open>The conversion of an \<^verbatim>\<open>int\<close> operand, and float multiplication and subtraction.\<close>

definition float_of_int :: "int \<Rightarrow> real" where
  "float_of_int n = round_double (of_int n)"

definition float_mul :: "real \<Rightarrow> real \<Rightarrow> real" where
  "float_mul a b = round_double (a * b)"

definition float_sub :: "real \<Rightarrow> real \<Rightarrow> real" where
  "float_sub a b = round_double (a - b)"

subsection \<open>The class Tetris\<close>

record game =
  locked :: locked
  grid :: grid
  current :: piece
  next_piece :: piece
  fall_time :: real
  fall_speed :: real
  score :: int
  lines :: int
  level :: int
  game_over :: bool

text \<open>
  \<^verbatim>\<open>get_new_piece\<close> is \<^verbatim>\<open>Piece(random.choice(PIECE_KEYS))\<close>: the drawn key is an
  argument of every operation that spawns a piece. \<^verbatim>\<open>reset\<close> draws twice.
\<close>

definition get_new_piece :: "piece_key \<Rightarrow> piece" where
  "get_new_piece k = Piece_init k"

definition reset :: "piece_key \<Rightarrow> piece_key \<Rightarrow> game" where
  "reset k1 k2 =
     \<lparr> locked = Map.empty, grid = make_grid Map.empty,
       current = get_new_piece k1, next_piece = get_new_piece k2,
       fall_time = 0, fall_speed = round_double 0.6, score = 0, lines = 0, level = 1,
       game_over = False \<rparr>"

text \<open>
  The first loop of \<^verbatim>\<open>lock_piece\<close>: a cell above the well sets the flag, any other
  cell is stored with the colour of the piece.
\<close>

fun lock_cells :: "cell list \<Rightarrow> color \<Rightarrow> locked \<times> bool \<Rightarrow> locked \<times> bool" where
  "lock_cells [] col s = s"
| "lock_cells ((cx, cy) # cs) col (lk, over) =
     (if cy < 0 then lock_cells cs col (lk, True)
      else lock_cells cs col (lk((cx, cy) \<mapsto> col), over))"

text \<open>\<^verbatim>\<open>score_table.get(cleared, 0)\<close>\<close>

definition score_table_get :: "int \<Rightarrow> int" where
  "score_table_get cleared =
     (if cleared = 1 then 40 else if cleared = 2 then 100 else if cleared = 3 then 300
      else if cleared = 4 then 1200 else 0)"

text \<open>\<^verbatim>\<open>max(0.05, 0.6 - (self.level - 1) * 0.05)\<close>\<close>

definition new_fall_speed :: "int \<Rightarrow> real" where
  "new_fall_speed lvl =
     max (round_double 0.05)
         (float_sub (round_double 0.6) (float_mul (float_of_int (lvl - 1)) (round_double 0.05)))"

definition update_stats :: "int \<Rightarrow> game \<Rightarrow> game" where
  "update_stats cleared g =
     (if cleared \<noteq> 0 then
        (let g1 = g\<lparr>score := score g + score_table_get cleared * level g\<rparr>;
             g2 = g1\<lparr>lines := lines g1 + cleared\<rparr>;
             g3 = g2\<lparr>level := lines g2 div 10 + 1\<rparr>
         in g3\<lparr>fall_speed := new_fall_speed (level g3)\<rparr>)
      else g)"

definition merge_piece :: "game \<Rightarrow> locked \<times> bool" where
  "merge_piece g =
     lock_cells (shape_cells (shape (current g)) (px (current g)) (py (current g)))
                (color (current g)) (locked g, game_over g)"

definition lock_piece :: "piece_key \<Rightarrow> game \<Rightarrow> game" where
  "lock_piece k g =
     (let (lk, over) = merge_piece g;
          gr = make_grid lk;
          (cleared, lk') = clear_lines gr lk;
          g1 = update_stats cleared (g\<lparr>locked := lk', grid := gr, game_over := over\<rparr>);
          g2 = g1\<lparr>current := next_piece g1\<rparr>
      in g2\<lparr>next_piece := get_new_piece k\<rparr>)"

text \<open>
  The loop of \<^verbatim>\<open>hard_drop\<close> runs while the position one row down is valid. Nothing in
  the loop itself bounds it, so it is a partial function: \<open>None\<close> is a loop that never
  ends, \<open>Some r\<close> is the row at which it stops.
\<close>

partial_function (option) drop_loop :: "shape \<Rightarrow> int \<Rightarrow> int \<Rightarrow> locked \<Rightarrow> int option" where
  "drop_loop sh x r lk =
     (if valid_space sh x (r + 1) lk then drop_loop sh x (r + 1) lk else Some r)"

definition hard_drop :: "piece_key \<Rightarrow> game \<Rightarrow> game option" where
  "hard_drop k g =
     (case drop_loop (shape (current g)) (px (current g)) (py (current g)) (locked g) of
        None \<Rightarrow> None
      | Some r \<Rightarrow> Some (lock_piece k (g\<lparr>current := (current g)\<lparr>py := r\<rparr>\<rparr>)))"

subsection \<open>The frame loop of run\<close>

datatype key = K_ESCAPE | K_LEFT | K_RIGHT | K_UP | K_x | K_z | K_DOWN | K_SPACE | K_r | K_other

datatype event = QUIT | KEYDOWN key | OTHER

text \<open>
  What handling an event leads to: \<^verbatim>\<open>sys.exit()\<close>, or the game goes on in a new state.
\<close>

datatype outcome = Exited | Running game

definition move_left :: "game \<Rightarrow> game" where
  "move_left g =
     (if valid_space (shape (current g)) (px (current g) - 1) (py (current g)) (locked g)
      then g\<lparr>current := (current g)\<lparr>px := px (current g) - 1\<rparr>\<rparr> else g)"

definition move_right :: "game \<Rightarrow> game" where
  "move_right g =
     (if valid_space (shape (current g)) (px (current g) + 1) (py (current g)) (locked g)
      then g\<lparr>current := (current g)\<lparr>px := px (current g) + 1\<rparr>\<rparr> else g)"

definition soft_drop :: "game \<Rightarrow> game" where
  "soft_drop g =
     (if valid_space (shape (current g)) (px (current g)) (py (current g) + 1) (locked g)
      then g\<lparr>current := (current g)\<lparr>py := py (current g) + 1\<rparr>\<rparr> else g)"

definition rotate_current :: "game \<Rightarrow> game" where
  "rotate_current g = g\<lparr>current := snd (Piece_rotate (current g) (locked g))\<rparr>"

definition rotate_ccw_current :: "game \<Rightarrow> game" where
  "rotate_ccw_current g = g\<lparr>current := snd (Piece_rotate_ccw (current g) (locked g))\<rparr>"

text \<open>
  The body of \<^verbatim>\<open>for event in pygame.event.get()\<close> for one event; \<open>k\<close> is the key that
  \<^verbatim>\<open>random.choice\<close> draws if the event locks a piece. The tests on the key are a
  sequence of independent \<^verbatim>\<open>if\<close>s on pairwise different keys, so one of them applies.
\<close>

fun handle_event :: "event \<Rightarrow> piece_key \<Rightarrow> game \<Rightarrow> outcome option" where
  "handle_event QUIT k g = Some Exited"
| "handle_event OTHER k g = Some (Running g)"
| "handle_event (KEYDOWN K_ESCAPE) k g = Some Exited"
| "handle_event (KEYDOWN K_LEFT) k g = Some (Running (move_left g))"
| "handle_event (KEYDOWN K_RIGHT) k g = Some (Running (move_right g))"
| "handle_event (KEYDOWN K_UP) k g = Some (Running (rotate_current g))"
| "handle_event (KEYDOWN K_x) k g = Some (Running (rotate_current g))"
| "handle_event (KEYDOWN K_z) k g = Some (Running (rotate_ccw_current g))"
| "handle_event (KEYDOWN K_DOWN) k g = Some (Running (soft_drop g))"
| "handle_event (KEYDOWN K_SPACE) k g = map_option Running (hard_drop k g)"
| "handle_event (KEYDOWN K_r) k g = Some (Running g)"
| "handle_event (KEYDOWN K_other) k g = Some (Running g)"

text \<open>The event loop of one frame: the events in arrival order.\<close>

fun handle_events :: "(event \<times> piece_key) list \<Rightarrow> game \<Rightarrow> outcome option" where
  "handle_events [] g = Some (Running g)"
| "handle_events ((ev, k) # evs) g =
     (case handle_event ev k g of
        None \<Rightarrow> None
      | Some Exited \<Rightarrow> Some Exited
      | Some (Running g') \<Rightarrow> handle_events evs g')"

text \<open>
  The gravity step of a frame, run when the clock says the fall interval has passed.
\<close>

definition gravity_step :: "piece_key \<Rightarrow> game \<Rightarrow> game" where
  "gravity_step k g =
     (if valid_space (shape (current g)) (px (current g)) (py (current g) + 1) (locked g)
      then g\<lparr>current := (current g)\<lparr>py := py (current g) + 1\<rparr>\<rparr>
      else lock_piece k g)"

text \<open>
  One pass through the body of \<^verbatim>\<open>while True\<close> in \<^verbatim>\<open>run\<close>, for a state whose flag was
  clear at the top of the loop: the events, then the gravity step if it is due.
\<close>

record frame_input =
  events :: "(event \<times> piece_key) list"
  gravity_due :: bool
  gravity_key :: piece_key

definition frame :: "frame_input \<Rightarrow> game \<Rightarrow> outcome option" where
  "frame inp g =
     (case handle_events (events inp) g of
        None \<Rightarrow> None
      | Some Exited \<Rightarrow> Some Exited
      | Some (Running g') \<Rightarrow>
          Some (Running (if gravity_due inp then gravity_step (gravity_key inp) g' else g')))"

text \<open>
  \<^verbatim>\<open>run\<close> over the frames that the input supplies: it leaves the loop for the game-over
  screen when the flag is set at the top of the loop or right after the gravity step's
  lock (\<open>Running g\<close> with the flag set), and otherwise goes on with the next frame.
\<close>

fun run :: "frame_input list \<Rightarrow> game \<Rightarrow> outcome option" where
  "run [] g = Some (Running g)"
| "run (inp # inps) g =
     (if game_over g then Some (Running g)
      else (case frame inp g of
              None \<Rightarrow> None
            | Some Exited \<Rightarrow> Some Exited
            | Some (Running g') \<Rightarrow> run inps g'))"

section \<open>Properties\<close>

subsection \<open>Ranges and the cells of a shape\<close>

lemma set_py_range: "set (py_range n) = {0..<n}"
proof (intro set_eqI iffI)
  fix v assume "v \<in> set (py_range n)"
  then show "v \<in> {0..<n}" unfolding py_range_def by auto
next
  fix v assume a: "v \<in> {0..<n}"
  then have "nat v \<in> {0..<nat n}" by auto
  then have "int (nat v) \<in> int ` {0..<nat n}" by (rule imageI)
  moreover have "int (nat v) = v" using a by simp
  ultimately show "v \<in> set (py_range n)" unfolding py_range_def by simp
qed

lemma in_set_shape_cells:
  "(a, b) \<in> set (shape_cells sh ox oy) \<longleftrightarrow>
     (\<exists>r c. r < length sh \<and> c < length (sh ! r) \<and> sh ! r ! c = CHR ''1'' \<and>
            a = ox + int c \<and> b = oy + int r)"
proof
  assume "(a, b) \<in> set (shape_cells sh ox oy)"
  then obtain r row c ch where "(r, row) \<in> set (enumerate 0 sh)"
    "(c, ch) \<in> set (enumerate 0 row)" "ch = CHR ''1''" "a = ox + int c" "b = oy + int r"
    unfolding shape_cells_def by auto
  then show "\<exists>r c. r < length sh \<and> c < length (sh ! r) \<and> sh ! r ! c = CHR ''1'' \<and>
            a = ox + int c \<and> b = oy + int r"
    by (auto simp: in_set_enumerate_eq)
next
  assume "\<exists>r c. r < length sh \<and> c < length (sh ! r) \<and> sh ! r ! c = CHR ''1'' \<and>
            a = ox + int c \<and> b = oy + int r"
  then obtain r c where h: "r < length sh" "c < length (sh ! r)" "sh ! r ! c = CHR ''1''"
     "a = ox + int c" "b = oy + int r" by blast
  have 1: "(r, sh ! r) \<in> set (enumerate 0 sh)" using h by (simp add: in_set_enumerate_eq)
  have 2: "(c, CHR ''1'') \<in> set (enumerate 0 (sh ! r))" using h by (simp add: in_set_enumerate_eq)
  have 3: "(a, b) \<in> set (map (\<lambda>(c, ch). (ox + int c, oy + int r))
                        (filter (\<lambda>(c, ch). ch = CHR ''1'') (enumerate 0 (sh ! r))))"
    using 2 h(4,5) by force
  show "(a, b) \<in> set (shape_cells sh ox oy)"
    unfolding shape_cells_def set_concat set_map using 1 3 by blast
qed

lemma valid_cells_iff:
  "valid_cells cs lk \<longleftrightarrow>
     (\<forall>cx cy. (cx, cy) \<in> set cs \<longrightarrow> 0 \<le> cx \<and> cx < COLUMNS \<and> cy < ROWS \<and> (0 \<le> cy \<longrightarrow> lk (cx, cy) = None))"
proof (induction cs lk rule: valid_cells.induct)
  case (1 lk)
  then show ?case by simp
next
  case (2 cx cy cs lk)
  let ?P = "\<lambda>a b. 0 \<le> a \<and> a < COLUMNS \<and> b < ROWS \<and> (0 \<le> b \<longrightarrow> lk (a, b) = None)"
  have step: "valid_cells ((cx, cy) # cs) lk = (?P cx cy \<and> valid_cells cs lk)"
    by (auto simp del: not_None_eq)
  show ?case
  proof (cases "?P cx cy")
    case True
    then have "valid_cells cs lk = (\<forall>a b. (a, b) \<in> set cs \<longrightarrow> ?P a b)"
      using 2 by (simp del: not_None_eq)
    then show ?thesis using True unfolding step by (auto simp del: not_None_eq)
  next
    case False
    then show ?thesis unfolding step by (auto simp del: not_None_eq)
  qed
qed

lemma all_image_pairs:
  "(\<forall>a b. (\<exists>r c. Q r c \<and> a = f c \<and> b = g r) \<longrightarrow> P a b) = (\<forall>r c. Q r c \<longrightarrow> P (f c) (g r))"
  by blast

subsection \<open>The validity test\<close>

lemma valid_space_cells:
  "valid_space sh ox oy lk \<longleftrightarrow>
     (\<forall>r c. r < length sh \<and> c < length (sh ! r) \<and> sh ! r ! c = CHR ''1'' \<longrightarrow>
        0 \<le> ox + int c \<and> ox + int c < COLUMNS \<and> oy + int r < ROWS \<and>
        (0 \<le> oy + int r \<longrightarrow> (ox + int c, oy + int r) \<notin> dom lk))"
proof -
  let ?P = "\<lambda>a b. 0 \<le> a \<and> a < COLUMNS \<and> b < ROWS \<and> (0 \<le> b \<longrightarrow> lk (a, b) = None)"
  have "valid_space sh ox oy lk =
      (\<forall>a b. (\<exists>r c. r < length sh \<and> c < length (sh ! r) \<and> sh ! r ! c = CHR ''1'' \<and>
            a = ox + int c \<and> b = oy + int r) \<longrightarrow> ?P a b)"
    unfolding valid_space_def valid_cells_iff in_set_shape_cells ..
  also have "\<dots> = (\<forall>r c. r < length sh \<and> c < length (sh ! r) \<and> sh ! r ! c = CHR ''1'' \<longrightarrow>
        ?P (ox + int c) (oy + int r))"
    using all_image_pairs[where f="\<lambda>c. ox + int c" and g="\<lambda>r. oy + int r" and P="?P"
          and Q="\<lambda>r c. r < length sh \<and> c < length (sh ! r) \<and> sh ! r ! c = CHR ''1''"]
    by (simp only: conj_assoc)
  finally show ?thesis by (simp only: domIff not_not)
qed

text \<open>
  Claim C2. \<^verbatim>\<open>valid_space\<close> returns true exactly when every cell of the shape that holds
  \<^verbatim>\<open>'1'\<close>, translated by the anchor, has its column in \<open>[0, COLUMNS)\<close>, its row below
  \<open>ROWS\<close>, and, when its row is not negative, is not a key of the dictionary. A cell
  with a negative row is not looked up, but its column is still checked.
\<close>

theorem valid_space_iff:
  "valid_space sh ox oy lk \<longleftrightarrow>
     (\<forall>r c. r < length sh \<and> c < length (sh ! r) \<and> sh ! r ! c = CHR ''1'' \<longrightarrow>
        0 \<le> ox + int c \<and> ox + int c < COLUMNS \<and> oy + int r < ROWS \<and>
        (0 \<le> oy + int r \<longrightarrow> (ox + int c, oy + int r) \<notin> dom lk))"
  by (rule valid_space_cells)

theorem valid_space_iff_witness:
  "valid_space [''11'', ''11''] 4 18 Map.empty \<and> \<not> valid_space [''11'', ''11''] 4 19 Map.empty"
proof
  have "\<forall>r c. r < length [''11'', ''11''] \<and> c < length ([''11'', ''11''] ! r) \<and>
          [''11'', ''11''] ! r ! c = CHR ''1'' \<longrightarrow>
        0 \<le> 4 + int c \<and> 4 + int c < COLUMNS \<and> 18 + int r < ROWS \<and>
        (0 \<le> 18 + int r \<longrightarrow> (4 + int c, 18 + int r) \<notin> dom (Map.empty :: locked))"
  proof (intro allI impI, elim conjE)
    fix r c :: nat
    assume r: "r < length [''11'', ''11'']" and c: "c < length ([''11'', ''11''] ! r)"
    from r have "r = 0 \<or> r = 1" by auto
    then have "length ([''11'', ''11''] ! r) = 2" by auto
    with c have "c < 2" by simp
    with r show "0 \<le> 4 + int c \<and> 4 + int c < COLUMNS \<and> 18 + int r < ROWS \<and>
        (0 \<le> 18 + int r \<longrightarrow> (4 + int c, 18 + int r) \<notin> dom (Map.empty :: locked))"
      by (simp add: COLUMNS_def ROWS_def)
  qed
  then show "valid_space [''11'', ''11''] 4 18 Map.empty"
    unfolding valid_space_iff [of "[''11'', ''11'']" 4 18 Map.empty] .
next
  show "\<not> valid_space [''11'', ''11''] 4 19 Map.empty"
  proof
    assume "valid_space [''11'', ''11''] 4 19 Map.empty"
    then have "\<forall>r c. r < length [''11'', ''11''] \<and> c < length ([''11'', ''11''] ! r) \<and>
          [''11'', ''11''] ! r ! c = CHR ''1'' \<longrightarrow>
        0 \<le> 4 + int c \<and> 4 + int c < COLUMNS \<and> 19 + int r < ROWS \<and>
        (0 \<le> 19 + int r \<longrightarrow> (4 + int c, 19 + int r) \<notin> dom (Map.empty :: locked))"
      unfolding valid_space_iff [of "[''11'', ''11'']" 4 19 Map.empty] .
    then have "1 < length [''11'', ''11''] \<and> 0 < length ([''11'', ''11''] ! 1) \<and>
          [''11'', ''11''] ! 1 ! 0 = CHR ''1'' \<longrightarrow> 19 + int 1 < ROWS"
      by blast
    then show False by (simp add: ROWS_def)
  qed
qed

subsection \<open>Spawning\<close>

lemma piece_wf_init: "piece_wf (Piece_init k)"
  by (cases k) (simp_all add: piece_wf_def Piece_init_def Let_def)


lemma spawn_cells:
  "list_all (\<lambda>(cx, cy). cy < 0 \<and> 0 \<le> cx \<and> cx < COLUMNS)
     (shape_cells (shape (Piece_init k)) (px (Piece_init k)) (py (Piece_init k)))"
  by (cases k) (simp_all add: Piece_init_def Let_def shape_cells_def COLUMNS_def)

lemma valid_cells_above:
  "list_all (\<lambda>(cx, cy). cy < 0 \<and> 0 \<le> cx \<and> cx < COLUMNS) cs \<Longrightarrow> valid_cells cs lk"
  by (induction cs lk rule: valid_cells.induct) (auto simp: ROWS_def)

text \<open>
  Claim C10. Whatever the board holds, a piece fresh from \<^verbatim>\<open>Piece.__init__\<close> is at a
  valid position, for each of the seven keys: all of its cells are above the well
  (row below 0), where the dictionary is not consulted, and all of its columns are in
  \<open>[0, COLUMNS)\<close>.
\<close>

theorem spawn_valid:
  "valid_space (shape (Piece_init k)) (px (Piece_init k)) (py (Piece_init k)) lk \<and>
   list_all (\<lambda>(cx, cy). cy < 0 \<and> 0 \<le> cx \<and> cx < COLUMNS)
     (shape_cells (shape (Piece_init k)) (px (Piece_init k)) (py (Piece_init k)))"
  unfolding valid_space_def using spawn_cells valid_cells_above by blast

subsection \<open>Rotation and movement\<close>

lemma try_kicks_find:
  "try_kicks dxs p lk =
     map_option (\<lambda>dx. p\<lparr>px := px p + dx\<rparr>)
       (find (\<lambda>dx. valid_space (shape p) (px p + dx) (py p) lk) dxs)"
  by (induction dxs) simp_all

lemma piece_wf_restore:
  "piece_wf p \<Longrightarrow> p\<lparr>rotation := new, shape := sh\<rparr>\<lparr>rotation := rotation p, shape := rotations p ! nat (rotation p)\<rparr> = p"
  by (simp add: piece_wf_def)

lemma rotate_to_find:
  assumes "piece_wf p"
  shows "rotate_to new p lk =
     (if valid_space (rotations p ! nat new) (px p) (py p) lk
      then (True, p\<lparr>rotation := new, shape := rotations p ! nat new\<rparr>)
      else (case find (\<lambda>dx. valid_space (rotations p ! nat new) (px p + dx) (py p) lk) [-1, 1, -2, 2] of
              Some dx \<Rightarrow> (True, p\<lparr>rotation := new, shape := rotations p ! nat new, px := px p + dx\<rparr>)
            | None \<Rightarrow> (False, p)))"
proof (cases "valid_space (rotations p ! nat new) (px p) (py p) lk")
  case True
  then show ?thesis by (simp add: rotate_to_def Let_def)
next
  case False
  let ?p1 = "p\<lparr>rotation := new, shape := rotations p ! nat new\<rparr>"
  have k: "try_kicks [-1, 1, -2, 2] ?p1 lk =
     map_option (\<lambda>dx. ?p1\<lparr>px := px p + dx\<rparr>)
       (find (\<lambda>dx. valid_space (rotations p ! nat new) (px p + dx) (py p) lk) [-1, 1, -2, 2])"
    unfolding try_kicks_find by simp
  have r: "?p1\<lparr>rotation := rotation p, shape := rotations ?p1 ! nat (rotation p)\<rparr> = p"
    using piece_wf_restore [OF assms] by simp
  show ?thesis
  proof (cases "find (\<lambda>dx. valid_space (rotations p ! nat new) (px p + dx) (py p) lk) [-1, 1, -2, 2]")
    case None
    then show ?thesis using False k r by (simp add: rotate_to_def Let_def)
  next
    case (Some dx)
    then show ?thesis using False k by (simp add: rotate_to_def Let_def)
  qed
qed

text \<open>
  Claim C5. A rotation (clockwise or counter-clockwise) whose new pattern is valid at the
  anchor takes it there; otherwise it tries the offsets \<open>-1, +1, -2, +2\<close> in this order
  on the same row, moves the piece by the first one that gives a valid position and
  returns true; if there is none, the piece is exactly as before the call and the result
  is false. A move to the left, to the right or down that is not valid leaves the state
  as it is.
\<close>

theorem rotation_kicks:
  assumes "piece_wf p"
  shows
  "(let new = (rotation p + 1) mod int (length (rotations p)); sh = rotations p ! nat new in
    Piece_rotate p lk =
     (if valid_space sh (px p) (py p) lk then (True, p\<lparr>rotation := new, shape := sh\<rparr>)
      else (case find (\<lambda>dx. valid_space sh (px p + dx) (py p) lk) [-1, 1, -2, 2] of
              Some dx \<Rightarrow> (True, p\<lparr>rotation := new, shape := sh, px := px p + dx\<rparr>)
            | None \<Rightarrow> (False, p)))) \<and>
   (let new = (rotation p - 1) mod int (length (rotations p)); sh = rotations p ! nat new in
    Piece_rotate_ccw p lk =
     (if valid_space sh (px p) (py p) lk then (True, p\<lparr>rotation := new, shape := sh\<rparr>)
      else (case find (\<lambda>dx. valid_space sh (px p + dx) (py p) lk) [-1, 1, -2, 2] of
              Some dx \<Rightarrow> (True, p\<lparr>rotation := new, shape := sh, px := px p + dx\<rparr>)
            | None \<Rightarrow> (False, p)))) \<and>
   (\<not> valid_space (shape (current g)) (px (current g) - 1) (py (current g)) (locked g)
      \<longrightarrow> move_left g = g) \<and>
   (\<not> valid_space (shape (current g)) (px (current g) + 1) (py (current g)) (locked g)
      \<longrightarrow> move_right g = g) \<and>
   (\<not> valid_space (shape (current g)) (px (current g)) (py (current g) + 1) (locked g)
      \<longrightarrow> soft_drop g = g)"
  unfolding Let_def Piece_rotate_def Piece_rotate_ccw_def rotate_to_find [OF assms]
  by (simp add: move_left_def move_right_def soft_drop_def)

theorem rotation_kicks_witness:
  "piece_wf ((Piece_init KI)\<lparr>rotation := 1, shape := TETROMINOES KI ! 1, px := -2, py := 5\<rparr>) \<and>
   Piece_rotate ((Piece_init KI)\<lparr>rotation := 1, shape := TETROMINOES KI ! 1, px := -2, py := 5\<rparr>) Map.empty =
     (True, (Piece_init KI)\<lparr>px := 0, py := 5\<rparr>) \<and>
   piece_wf ((Piece_init KI)\<lparr>py := 18\<rparr>) \<and>
   Piece_rotate ((Piece_init KI)\<lparr>py := 18\<rparr>) Map.empty = (False, (Piece_init KI)\<lparr>py := 18\<rparr>) \<and>
   Piece_rotate_ccw ((Piece_init KI)\<lparr>py := 18\<rparr>) Map.empty = (False, (Piece_init KI)\<lparr>py := 18\<rparr>) \<and>
   move_left ((reset KI KI)\<lparr>current := (Piece_init KI)\<lparr>px := 0\<rparr>\<rparr>) =
     (reset KI KI)\<lparr>current := (Piece_init KI)\<lparr>px := 0\<rparr>\<rparr>"
proof -
  let ?p = "(Piece_init KI)\<lparr>rotation := 1, shape := TETROMINOES KI ! 1, px := -2, py := 5\<rparr>"
  let ?q = "(Piece_init KI)\<lparr>py := 18\<rparr>"
  let ?g = "(reset KI KI)\<lparr>current := (Piece_init KI)\<lparr>px := 0\<rparr>\<rparr>"
  have wp: "piece_wf ?p" by (simp add: piece_wf_def Piece_init_def Let_def)
  have wq: "piece_wf ?q" by (simp add: piece_wf_def Piece_init_def Let_def)
  have 1: "Piece_rotate ?p Map.empty = (True, (Piece_init KI)\<lparr>px := 0, py := 5\<rparr>)"
    using rotation_kicks [OF wp, of Map.empty ?g]
    by (simp add: Let_def Piece_init_def valid_space_def shape_cells_def COLUMNS_def ROWS_def)
  have 2: "Piece_rotate ?q Map.empty = (False, ?q) \<and> Piece_rotate_ccw ?q Map.empty = (False, ?q) \<and> move_left ?g = ?g"
    using rotation_kicks [OF wq, of Map.empty ?g]
    by (simp add: Let_def Piece_init_def valid_space_def shape_cells_def COLUMNS_def ROWS_def
          reset_def get_new_piece_def)
  show ?thesis using wp wq 1 2 by blast
qed

lemma rotate_free:
  assumes wf: "piece_wf p" and l4: "length (rotations p) = 4"
    and v: "list_all (\<lambda>s. valid_space s (px p) (py p) lk) (rotations p)"
  shows "Piece_rotate p lk = (True, p\<lparr>rotation := (rotation p + 1) mod 4,
                                 shape := rotations p ! nat ((rotation p + 1) mod 4)\<rparr>)"
proof -
  have "nat ((rotation p + 1) mod 4) < length (rotations p)" using l4 by simp
  then have "rotations p ! nat ((rotation p + 1) mod 4) \<in> set (rotations p)" by (rule nth_mem)
  then have "valid_space (rotations p ! nat ((rotation p + 1) mod 4)) (px p) (py p) lk"
    using v by (simp add: list_all_iff)
  then show ?thesis unfolding Piece_rotate_def rotate_to_find [OF wf] l4 by simp
qed

text \<open>
  Claim C8. For a piece of type J, L or T (four rotation states) on a board where each
  of its four patterns is valid at the anchor, four clockwise rotations all succeed
  without a kick and give back the piece as it was: pattern, index and anchor.
\<close>

theorem four_rotations_identity:
  assumes wf: "piece_wf p" and t: "ptype p = KJ \<or> ptype p = KL \<or> ptype p = KT"
    and v: "list_all (\<lambda>s. valid_space s (px p) (py p) lk) (rotations p)"
  shows "(let r1 = Piece_rotate p lk; r2 = Piece_rotate (snd r1) lk; r3 = Piece_rotate (snd r2) lk;
              r4 = Piece_rotate (snd r3) lk in
          fst r1 \<and> fst r2 \<and> fst r3 \<and> fst r4 \<and>
          px (snd r1) = px p \<and> px (snd r2) = px p \<and> px (snd r3) = px p \<and> snd r4 = p)"
proof -
  have l4: "length (rotations p) = 4" using wf t by (auto simp: piece_wf_def)
  define u where "u n = p\<lparr>rotation := n, shape := rotations p ! nat n\<rparr>" for n
  have pu: "p = u (rotation p)" using wf by (simp add: u_def piece_wf_def)
  have step: "Piece_rotate (u n) lk = (True, u ((n + 1) mod 4))" if "0 \<le> n" "n < 4" for n
  proof -
    have w: "piece_wf (u n)" using wf that l4 by (simp add: u_def piece_wf_def)
    have l: "length (rotations (u n)) = 4" using l4 by (simp add: u_def)
    have vv: "list_all (\<lambda>s. valid_space s (px (u n)) (py (u n)) lk) (rotations (u n))"
      using v by (simp add: u_def)
    show ?thesis unfolding rotate_free [OF w l vv] by (simp add: u_def)
  qed
  define n0 where "n0 = rotation p"
  define n1 where "n1 = (n0 + 1) mod 4"
  define n2 where "n2 = (n1 + 1) mod 4"
  define n3 where "n3 = (n2 + 1) mod 4"
  have b0: "0 \<le> n0" "n0 < 4" using wf l4 by (simp_all add: n0_def piece_wf_def)
  have b1: "0 \<le> n1" "n1 < 4" by (simp_all add: n1_def)
  have b2: "0 \<le> n2" "n2 < 4" by (simp_all add: n2_def)
  have b3: "0 \<le> n3" "n3 < 4" by (simp_all add: n3_def)
  have cyc: "(n3 + 1) mod 4 = n0" using b0 unfolding n3_def n2_def n1_def by presburger
  have r1: "Piece_rotate p lk = (True, u n1)" using step [OF b0] pu by (simp add: n0_def n1_def)
  have r2: "Piece_rotate (u n1) lk = (True, u n2)" using step [OF b1] by (simp add: n2_def)
  have r3: "Piece_rotate (u n2) lk = (True, u n3)" using step [OF b2] by (simp add: n3_def)
  have r4: "Piece_rotate (u n3) lk = (True, p)" using step [OF b3] pu cyc by (simp add: n0_def)
  have x: "px (u n) = px p" for n by (simp add: u_def)
  show ?thesis unfolding Let_def r1 snd_conv r2 r3 r4 fst_conv x by simp
qed

theorem four_rotations_identity_witness:
  "piece_wf ((Piece_init KT)\<lparr>py := 5\<rparr>) \<and> ptype ((Piece_init KT)\<lparr>py := 5\<rparr>) = KT \<and>
   list_all (\<lambda>s. valid_space s (px ((Piece_init KT)\<lparr>py := 5\<rparr>)) (py ((Piece_init KT)\<lparr>py := 5\<rparr>)) Map.empty)
     (rotations ((Piece_init KT)\<lparr>py := 5\<rparr>)) \<and>
   snd (Piece_rotate (snd (Piece_rotate (snd (Piece_rotate (snd (Piece_rotate ((Piece_init KT)\<lparr>py := 5\<rparr>) Map.empty))
      Map.empty)) Map.empty)) Map.empty) = (Piece_init KT)\<lparr>py := 5\<rparr>"
proof -
  let ?p = "(Piece_init KT)\<lparr>py := 5\<rparr>"
  have wf: "piece_wf ?p" by (simp add: piece_wf_def Piece_init_def Let_def)
  have t: "ptype ?p = KJ \<or> ptype ?p = KL \<or> ptype ?p = KT" by (simp add: Piece_init_def Let_def)
  have v: "list_all (\<lambda>s. valid_space s (px ?p) (py ?p) Map.empty) (rotations ?p)"
    by (simp add: Piece_init_def Let_def valid_space_def shape_cells_def COLUMNS_def ROWS_def)
  have "snd (Piece_rotate (snd (Piece_rotate (snd (Piece_rotate (snd (Piece_rotate ?p Map.empty))
      Map.empty)) Map.empty)) Map.empty) = ?p"
    using four_rotations_identity [OF wf t v] by (simp add: Let_def)
  moreover have "ptype ?p = KT" by (simp add: Piece_init_def Let_def)
  ultimately show ?thesis using wf v by blast
qed

subsection \<open>Clearing lines: the loops\<close>

lemma distinct_py_range: "distinct (py_range n)"
  unfolding py_range_def by (simp add: distinct_map)

lemma sorted_py_range: "sorted (py_range n)"
  unfolding py_range_def by (simp add: sorted_map)

lemma length_py_range: "length (py_range n) = nat n"
  by (simp add: py_range_def)

lemma nth_py_range: "i < nat n \<Longrightarrow> py_range n ! i = int i"
  by (simp add: py_range_def)

lemma filter_less_upt: "m \<le> n \<Longrightarrow> filter (\<lambda>i. i < m) [0..<n] = [0..<m]"
proof (induction n)
  case 0
  then show ?case by simp
next
  case (Suc n)
  show ?case
  proof (cases "m \<le> n")
    case True
    then show ?thesis using Suc by simp
  next
    case False
    then have "m = Suc n" using Suc.prems by simp
    then show ?thesis by (simp add: filter_id_conv)
  qed
qed

lemma filter_less_py_range:
  assumes "0 \<le> m" "m \<le> n"
  shows "filter (\<lambda>r. r < m) (py_range n) = py_range m"
proof -
  have "filter (\<lambda>r. r < m) (map int [0..<nat n]) = map int (filter (\<lambda>i. i < nat m) [0..<nat n])"
    using assms by (simp add: filter_map comp_def) (rule filter_cong, auto)
  also have "\<dots> = map int [0..<nat m]" using assms by (simp add: filter_less_upt)
  finally show ?thesis by (simp add: py_range_def)
qed

lemma make_grid_nth:
  assumes "0 \<le> r" "r < ROWS" "0 \<le> c" "c < COLUMNS"
  shows "make_grid lk ! nat r ! nat c = lk (c, r)"
  using assms by (simp add: make_grid_def length_py_range nth_py_range)

lemma full_row_iff: "full_row lk r \<longleftrightarrow> (\<forall>c. 0 \<le> c \<and> c < COLUMNS \<longrightarrow> lk (c, r) \<noteq> None)"
  unfolding full_row_def list_all_iff set_py_range by (auto simp del: not_None_eq)

lemma lines_to_clear_make_grid:
  "lines_to_clear (make_grid lk) = filter (full_row lk) (py_range ROWS)"
  unfolding lines_to_clear_def
proof (rule filter_cong [OF refl])
  fix r assume "r \<in> set (py_range ROWS)"
  then have r: "0 \<le> r" "r < ROWS" by (simp_all add: set_py_range)
  show "list_all (\<lambda>c. make_grid lk ! nat r ! nat c \<noteq> None) (py_range COLUMNS) = full_row lk r"
    unfolding full_row_def list_all_iff set_py_range
    using r by (simp add: make_grid_nth del: not_None_eq)
qed

lemma delete_cols_apply:
  "fold (\<lambda>c m. if m (c, row) \<noteq> None then m((c, row) := None) else m) cs lk k =
     (if fst k \<in> set cs \<and> snd k = row then None else lk k)"
  by (induction cs arbitrary: lk) (auto simp del: not_None_eq)

lemma delete_row_apply:
  "delete_row row lk k = (if 0 \<le> fst k \<and> fst k < COLUMNS \<and> snd k = row then None else lk k)"
  unfolding delete_row_def delete_cols_apply set_py_range by simp

lemma fold_delete_row_apply:
  "fold delete_row rs lk k =
     (if 0 \<le> fst k \<and> fst k < COLUMNS \<and> snd k \<in> set rs then None else lk k)"
  by (induction rs arbitrary: lk) (auto simp: delete_row_apply simp del: not_None_eq)

lemma delete_rows_apply:
  "delete_rows ls lk k =
     (if 0 \<le> fst k \<and> fst k < COLUMNS \<and> snd k \<in> set ls then None else lk k)"
  unfolding delete_rows_def fold_delete_row_apply by simp

lemma shift_cols_apply:
  fixes r s :: int and lk :: locked
  assumes "s \<noteq> 0"
  shows "fold (\<lambda>c m. if m (c, r) \<noteq> None then (m((c, r) := None))((c, r + s) := m (c, r)) else m) cs lk (c, t) =
     (if c \<in> set cs
      then (if t = r then None else if t = r + s \<and> lk (c, r) \<noteq> None then lk (c, r) else lk (c, t))
      else lk (c, t))"
proof -
  have ne: "r + s \<noteq> r" "r \<noteq> r + s" using assms by simp_all
  show ?thesis
  proof (induction cs arbitrary: lk)
    case Nil
    then show ?case by simp
  next
    case (Cons a cs)
    show ?case using ne unfolding fold_Cons comp_def Cons.IH
      by (auto simp del: not_None_eq)
  qed
qed

lemma shift_row_apply:
  assumes "s \<noteq> 0"
  shows "shift_row r s lk (c, t) =
     (if 0 \<le> c \<and> c < COLUMNS
      then (if t = r then None else if t = r + s \<and> lk (c, r) \<noteq> None then lk (c, r) else lk (c, t))
      else lk (c, t))"
  unfolding shift_row_def shift_cols_apply [OF assms] set_py_range by simp

lemma shift_amount_card:
  "distinct ls \<Longrightarrow> shift_amount ls r = int (card {c \<in> set ls. r < c})"
proof -
  assume "distinct ls"
  then have "length (filter (\<lambda>c. r < c) ls) = card ({c. r < c} \<inter> set ls)"
    by (rule distinct_length_filter)
  moreover have "{c. r < c} \<inter> set ls = {c \<in> set ls. r < c}" by auto
  ultimately show ?thesis by (simp add: shift_amount_def)
qed

lemma shift_amount_nonneg: "0 \<le> shift_amount ls r"
  by (simp add: shift_amount_def)

lemma shift_amount_pos:
  assumes "M \<in> set ls" "r < M"
  shows "0 < shift_amount ls r"
proof -
  have "M \<in> set (filter (\<lambda>c. r < c) ls)" using assms by simp
  then have "filter (\<lambda>c. r < c) ls \<noteq> []" by (metis empty_iff empty_set)
  then show ?thesis by (simp add: shift_amount_def)
qed

lemma shift_amount_zero:
  assumes "\<forall>c\<in>set ls. c \<le> r"
  shows "shift_amount ls r = 0"
proof -
  have "filter (\<lambda>c. r < c) ls = []" using assms by (auto simp: filter_empty_conv)
  then show ?thesis by (simp add: shift_amount_def)
qed

lemma shift_amount_le:
  assumes d: "distinct ls" and ub: "\<forall>c\<in>set ls. c \<le> M" and r: "r \<le> M"
  shows "r + shift_amount ls r \<le> M"
proof -
  have "{c \<in> set ls. r < c} \<subseteq> {r + 1..M}" using ub by auto
  then have "card {c \<in> set ls. r < c} \<le> card {r + 1..M}" by (rule card_mono [OF finite_atLeastAtMost_int])
  also have "\<dots> = nat (M - r)" by simp
  finally show ?thesis using r unfolding shift_amount_card [OF d] by linarith
qed

lemma shift_amount_strict:
  assumes d: "distinct ls" and lt: "r < r'" and nin: "r' \<notin> set ls"
  shows "r + shift_amount ls r < r' + shift_amount ls r'"
proof -
  have sub: "{c \<in> set ls. r < c} \<subseteq> {c \<in> set ls. r' < c} \<union> {r + 1..r' - 1}"
  proof
    fix c assume "c \<in> {c \<in> set ls. r < c}"
    then have c: "c \<in> set ls" "r < c" by simp_all
    show "c \<in> {c \<in> set ls. r' < c} \<union> {r + 1..r' - 1}"
    proof (cases "r' < c")
      case True
      then show ?thesis using c by simp
    next
      case False
      moreover have "c \<noteq> r'" using c nin by blast
      ultimately have "c \<le> r' - 1" by simp
      then show ?thesis using c by simp
    qed
  qed
  have "card {c \<in> set ls. r < c} \<le> card ({c \<in> set ls. r' < c} \<union> {r + 1..r' - 1})"
    by (rule card_mono [OF _ sub]) simp
  also have "\<dots> \<le> card {c \<in> set ls. r' < c} + card {r + 1..r' - 1}" by (rule card_Un_le)
  also have "card {r + 1..r' - 1} = nat (r' - 1 - r)" by simp
  finally show ?thesis using lt unfolding shift_amount_card [OF d] by linarith
qed

lemma shift_inv_step:
  assumes d: "distinct ls" and ne: "ls \<noteq> []"
    and cl: "\<forall>c r. 0 \<le> c \<and> c < COLUMNS \<and> r \<in> set ls \<longrightarrow> lk1 (c, r) = None"
    and K: "K < Max (set ls)"
    and inv: "shift_inv ls lk1 (K + 1) m"
  shows "shift_inv ls lk1 K (shift_step ls K m)"
proof -
  define M where "M = Max (set ls)"
  define s where "s = shift_amount ls K"
  define m' where "m' = shift_step ls K m"
  have Min: "M \<in> set ls" unfolding M_def using ne by (intro Max_in) simp_all
  have ub: "\<forall>c\<in>set ls. c \<le> M" unfolding M_def by simp
  have KM: "K < M" using K by (simp add: M_def)
  have s0: "0 < s" unfolding s_def by (rule shift_amount_pos [OF Min KM])
  have sM: "K + s \<le> M" unfolding s_def using shift_amount_le [OF d ub] KM by simp
  have i1: "\<And>c t. \<not> (0 \<le> c \<and> c < COLUMNS) \<Longrightarrow> m (c, t) = lk1 (c, t)"
    and i2: "\<And>c t. t < K + 1 \<or> M < t \<Longrightarrow> m (c, t) = lk1 (c, t)"
    and i3: "\<And>c r. 0 \<le> c \<Longrightarrow> c < COLUMNS \<Longrightarrow> K + 1 \<le> r \<Longrightarrow> r < M \<Longrightarrow> r \<notin> set ls \<Longrightarrow>
            m (c, r + shift_amount ls r) = lk1 (c, r)"
    and i4: "\<And>c t. 0 \<le> c \<Longrightarrow> c < COLUMNS \<Longrightarrow> K + 1 \<le> t \<Longrightarrow> t \<le> M \<Longrightarrow>
            (\<forall>r. K + 1 \<le> r \<and> r < M \<and> r \<notin> set ls \<longrightarrow> r + shift_amount ls r \<noteq> t) \<Longrightarrow>
            m (c, t) = None"
    using inv unfolding shift_inv_def M_def [symmetric] by blast+
  have mK: "m (c, K) = lk1 (c, K)" for c using i2 [of K c] by simp
  have step: "m' (c, t) =
     (if 0 \<le> c \<and> c < COLUMNS
      then (if t = K then None else if t = K + s \<and> m (c, K) \<noteq> None then m (c, K) else m (c, t))
      else m (c, t))" for c t
    unfolding m'_def shift_step_def s_def [symmetric] using s0 shift_row_apply [of s K m c t]
    by (simp del: not_None_eq)
  show ?thesis
  proof (cases "K \<in> set ls")
    case True
    have "m' (c, t) = m (c, t)" for c t
      using step [of c t] mK [of c] cl True by (auto simp del: not_None_eq)
    then have same: "m' = m" by auto
    have c4: "m (c, t) = None"
      if "0 \<le> c" "c < COLUMNS" "K \<le> t" "t \<le> M"
         "\<forall>r. K \<le> r \<and> r < M \<and> r \<notin> set ls \<longrightarrow> r + shift_amount ls r \<noteq> t" for c t
    proof (cases "t = K")
      case True
      then show ?thesis using mK [of c] cl that \<open>K \<in> set ls\<close> by simp
    next
      case False
      then have "K + 1 \<le> t" using that by simp
      moreover have "\<forall>r. K + 1 \<le> r \<and> r < M \<and> r \<notin> set ls \<longrightarrow> r + shift_amount ls r \<noteq> t"
        using that(5) by simp
      ultimately show ?thesis using i4 that by blast
    qed
    have c3: "m (c, r + shift_amount ls r) = lk1 (c, r)"
      if "0 \<le> c" "c < COLUMNS" "K \<le> r" "r < M" "r \<notin> set ls" for c r
    proof -
      have "r \<noteq> K" using that True by blast
      then have "K + 1 \<le> r" using that by simp
      then show ?thesis using i3 that by blast
    qed
    have c2: "m (c, t) = lk1 (c, t)" if "t < K \<or> M < t" for c t
      using i2 [of t c] that by auto
    show ?thesis
      unfolding m'_def [symmetric] same shift_inv_def M_def [symmetric]
      using i1 c2 c3 c4 by (simp del: not_None_eq)
  next
    case False
    have far: "K + s < r + shift_amount ls r" if "K + 1 \<le> r" "r \<notin> set ls" for r
      unfolding s_def using shift_amount_strict [OF d, of K r] that by simp
    have free: "m (c, K + s) = None" if "0 \<le> c" "c < COLUMNS" for c
    proof (rule i4 [OF that])
      show "K + 1 \<le> K + s" using s0 by simp
      show "K + s \<le> M" by (rule sM)
      show "\<forall>r. K + 1 \<le> r \<and> r < M \<and> r \<notin> set ls \<longrightarrow> r + shift_amount ls r \<noteq> K + s"
        using far by fastforce
    qed
    have step': "m' (c, t) =
       (if 0 \<le> c \<and> c < COLUMNS
        then (if t = K then None else if t = K + s then lk1 (c, K) else m (c, t))
        else m (c, t))" for c t
      using step [of c t] free [of c] mK [of c] by (auto simp del: not_None_eq)
    have c1: "m' (c, t) = lk1 (c, t)" if "\<not> (0 \<le> c \<and> c < COLUMNS)" for c t
      using step' [of c t] i1 [OF that] that by simp
    have c2: "m' (c, t) = lk1 (c, t)" if "t < K \<or> M < t" for c t
    proof -
      have "t \<noteq> K" "t \<noteq> K + s" using that s0 sM KM by auto
      then have "m' (c, t) = m (c, t)" using step' [of c t] by simp
      then show ?thesis using i2 [of t c] that by auto
    qed
    have c3: "m' (c, r + shift_amount ls r) = lk1 (c, r)"
      if "0 \<le> c" "c < COLUMNS" "K \<le> r" "r < M" "r \<notin> set ls" for c r
    proof (cases "r = K")
      case True
      then show ?thesis using step' [of c "K + s"] that s0 by (simp add: s_def)
    next
      case False
      then have r: "K + 1 \<le> r" using that by simp
      have "K + s < r + shift_amount ls r" by (rule far [OF r that(5)])
      then have "m' (c, r + shift_amount ls r) = m (c, r + shift_amount ls r)"
        using step' [of c "r + shift_amount ls r"] s0 by simp
      then show ?thesis using i3 [OF that(1,2) r that(4,5)] by simp
    qed
    have c4: "m' (c, t) = None"
      if "0 \<le> c" "c < COLUMNS" "K \<le> t" "t \<le> M"
         "\<forall>r. K \<le> r \<and> r < M \<and> r \<notin> set ls \<longrightarrow> r + shift_amount ls r \<noteq> t" for c t
    proof (cases "t = K")
      case True
      then show ?thesis using step' [of c t] that by simp
    next
      case nK: False
      have "K + shift_amount ls K \<noteq> t" using that(5) KM False by simp
      then have nKs: "t \<noteq> K + s" by (auto simp: s_def)
      have "K + 1 \<le> t" using nK that by simp
      moreover have "\<forall>r. K + 1 \<le> r \<and> r < M \<and> r \<notin> set ls \<longrightarrow> r + shift_amount ls r \<noteq> t"
        using that(5) by simp
      ultimately have "m (c, t) = None" using i4 that by blast
      then show ?thesis using step' [of c t] nK nKs by simp
    qed
    show ?thesis
      unfolding m'_def [symmetric] shift_inv_def M_def [symmetric]
      using c1 c2 c3 c4 by (simp del: not_None_eq)
  qed
qed

lemma py_range_Suc: "py_range (int (Suc k)) = py_range (int k) @ [int k]"
  unfolding py_range_def nat_int by simp

lemma shift_loop:
  assumes d: "distinct ls" and ne: "ls \<noteq> []"
    and cl: "\<forall>c r. 0 \<le> c \<and> c < COLUMNS \<and> r \<in> set ls \<longrightarrow> lk1 (c, r) = None"
  shows "int k \<le> Max (set ls) \<Longrightarrow> shift_inv ls lk1 (int k) m \<Longrightarrow>
         shift_inv ls lk1 0 (fold (shift_step ls) (rev (py_range (int k))) m)"
proof (induction k arbitrary: m)
  case 0
  then show ?case by (simp add: py_range_def)
next
  case (Suc k)
  have lt: "int k < Max (set ls)" using Suc.prems(1) by simp
  have "shift_inv ls lk1 (int k + 1) m" using Suc.prems(2) by (simp add: add.commute)
  then have "shift_inv ls lk1 (int k) (shift_step ls (int k) m)"
    by (rule shift_inv_step [OF d ne cl lt])
  moreover have "int k \<le> Max (set ls)" using lt by simp
  ultimately have "shift_inv ls lk1 0
      (fold (shift_step ls) (rev (py_range (int k))) (shift_step ls (int k) m))"
    by (rule Suc.IH [rotated])
  then show ?case unfolding py_range_Suc by simp
qed

lemma shift_rows_final:
  assumes d: "distinct ls" and ne: "ls \<noteq> []" and rng: "\<forall>r\<in>set ls. 0 \<le> r \<and> r < ROWS"
  shows "shift_inv ls (delete_rows ls lk) 0 (shift_rows ls (delete_rows ls lk))"
proof -
  define M where "M = Max (set ls)"
  define lk1 where "lk1 = delete_rows ls lk"
  have Min: "M \<in> set ls" unfolding M_def using ne by (intro Max_in) simp_all
  have M0: "0 \<le> M" "M \<le> ROWS" using rng Min by auto
  have cl: "\<forall>c r. 0 \<le> c \<and> c < COLUMNS \<and> r \<in> set ls \<longrightarrow> lk1 (c, r) = None"
    by (simp add: lk1_def delete_rows_apply)
  have "filter (\<lambda>r. r < M) (py_range ROWS) = py_range M" by (rule filter_less_py_range [OF M0])
  then have l: "rev (sort (filter (\<lambda>r. r < Max (set ls)) (py_range ROWS))) = rev (py_range (int (nat M)))"
    using M0 by (simp add: M_def [symmetric] sorted_sort_id [OF sorted_py_range])
  have top: "lk1 (c, t) = None" if "0 \<le> c" "c < COLUMNS" "M \<le> t" "t \<le> M" for c t
  proof -
    have "t = M" using that by simp
    then show ?thesis using cl [rule_format, of c M] Min that(1,2) by simp
  qed
  have init: "shift_inv ls lk1 (int (nat M)) lk1"
    using M0 top by (simp add: shift_inv_def M_def [symmetric] del: not_None_eq)
  have "shift_inv ls lk1 0 (fold (shift_step ls) (rev (py_range (int (nat M)))) lk1)"
    by (rule shift_loop [OF d ne cl _ init]) (use M0 in \<open>simp add: M_def\<close>)
  then show ?thesis unfolding shift_rows_def l lk1_def .
qed

lemma set_lines_to_clear:
  "set (lines_to_clear (make_grid lk)) = {r. 0 \<le> r \<and> r < ROWS \<and> full_row lk r}"
  unfolding lines_to_clear_make_grid by (auto simp: set_py_range)

lemma distinct_lines_to_clear: "distinct (lines_to_clear (make_grid lk))"
  unfolding lines_to_clear_make_grid by (simp add: distinct_py_range)

lemma shift_amount_lines:
  "shift_amount (lines_to_clear (make_grid lk)) r =
     int (card {r'. 0 \<le> r' \<and> r' < ROWS \<and> full_row lk r' \<and> r < r'})"
proof -
  have "{c \<in> set (lines_to_clear (make_grid lk)). r < c} =
        {r'. 0 \<le> r' \<and> r' < ROWS \<and> full_row lk r' \<and> r < r'}"
    unfolding set_lines_to_clear by auto
  then show ?thesis unfolding shift_amount_card [OF distinct_lines_to_clear] by simp
qed

lemma clear_lines_count:
  "fst (clear_lines (make_grid lk) lk) = int (card {r. 0 \<le> r \<and> r < ROWS \<and> full_row lk r})"
proof -
  define ls where "ls = lines_to_clear (make_grid lk)"
  have c: "int (length ls) = int (card {r. 0 \<le> r \<and> r < ROWS \<and> full_row lk r})"
    using distinct_card [OF distinct_lines_to_clear, of lk] set_lines_to_clear [of lk]
    by (simp add: ls_def)
  have "fst (clear_lines (make_grid lk) lk) = int (length ls)"
    by (cases "ls = []") (simp_all add: clear_lines_def Let_def ls_def)
  then show ?thesis using c by simp
qed

lemma clear_lines_none:
  assumes "\<forall>r. 0 \<le> r \<and> r < ROWS \<longrightarrow> \<not> full_row lk r"
  shows "clear_lines (make_grid lk) lk = (0, lk)"
proof -
  have "set (lines_to_clear (make_grid lk)) = {}" unfolding set_lines_to_clear using assms by auto
  then show ?thesis by (simp add: clear_lines_def Let_def)
qed

lemma clear_lines_cells:
  fixes lk :: locked
  defines "ls \<equiv> lines_to_clear (make_grid lk)"
  defines "lk' \<equiv> snd (clear_lines (make_grid lk) lk)"
  shows "(\<forall>c r. 0 \<le> c \<and> c < COLUMNS \<and> 0 \<le> r \<and> r < ROWS \<and> \<not> full_row lk r \<longrightarrow>
            lk' (c, r + shift_amount ls r) = lk (c, r)) \<and>
         (\<forall>c t v. 0 \<le> c \<and> c < COLUMNS \<and> 0 \<le> t \<and> t < ROWS \<and> lk' (c, t) = Some v \<longrightarrow>
            (\<exists>r. 0 \<le> r \<and> r < ROWS \<and> \<not> full_row lk r \<and> t = r + shift_amount ls r \<and>
                 lk (c, r) = Some v)) \<and>
         (\<forall>c t. \<not> (0 \<le> c \<and> c < COLUMNS \<and> 0 \<le> t \<and> t < ROWS) \<longrightarrow> lk' (c, t) = lk (c, t))"
proof (cases "ls = []")
  case True
  then have e: "lk' = lk" by (simp add: lk'_def ls_def clear_lines_def Let_def)
  have z: "shift_amount ls r = 0" for r using True by (simp add: shift_amount_def)
  have nf: "\<not> full_row lk r" if "0 \<le> r" "r < ROWS" for r
    using True that set_lines_to_clear [of lk] by (auto simp: ls_def)
  show ?thesis unfolding e z using nf by (auto simp del: not_None_eq)
next
  case ne: False
  define M where "M = Max (set ls)"
  have d: "distinct ls" unfolding ls_def by (rule distinct_lines_to_clear)
  have mem: "r \<in> set ls \<longleftrightarrow> 0 \<le> r \<and> r < ROWS \<and> full_row lk r" for r
    unfolding ls_def set_lines_to_clear by simp
  have rng: "\<forall>r\<in>set ls. 0 \<le> r \<and> r < ROWS" using mem by blast
  have Min: "M \<in> set ls" unfolding M_def using ne by (intro Max_in) simp_all
  have ub: "\<forall>c\<in>set ls. c \<le> M" unfolding M_def by simp
  have MR: "0 \<le> M" "M < ROWS" using Min mem by auto
  have e: "lk' = shift_rows ls (delete_rows ls lk)"
    using ne by (simp add: lk'_def ls_def clear_lines_def Let_def)
  have inv: "shift_inv ls (delete_rows ls lk) 0 lk'"
    unfolding e by (rule shift_rows_final [OF d ne rng])
  have i1: "\<And>c t. \<not> (0 \<le> c \<and> c < COLUMNS) \<Longrightarrow> lk' (c, t) = delete_rows ls lk (c, t)"
    and i2: "\<And>c t. t < 0 \<or> M < t \<Longrightarrow> lk' (c, t) = delete_rows ls lk (c, t)"
    and i3: "\<And>c r. 0 \<le> c \<Longrightarrow> c < COLUMNS \<Longrightarrow> 0 \<le> r \<Longrightarrow> r < M \<Longrightarrow> r \<notin> set ls \<Longrightarrow>
            lk' (c, r + shift_amount ls r) = delete_rows ls lk (c, r)"
    and i4: "\<And>c t. 0 \<le> c \<Longrightarrow> c < COLUMNS \<Longrightarrow> 0 \<le> t \<Longrightarrow> t \<le> M \<Longrightarrow>
            (\<forall>r. 0 \<le> r \<and> r < M \<and> r \<notin> set ls \<longrightarrow> r + shift_amount ls r \<noteq> t) \<Longrightarrow>
            lk' (c, t) = None"
    using inv unfolding shift_inv_def M_def [symmetric] by blast+
  have j1: "lk' (c, t) = lk (c, t)" if "\<not> (0 \<le> c \<and> c < COLUMNS)" for c t
    unfolding i1 [OF that] using that by (auto simp: delete_rows_apply)
  have j2: "lk' (c, t) = lk (c, t)" if "t < 0 \<or> M < t" for c t
  proof -
    have "t \<notin> set ls" using that rng ub by auto
    then show ?thesis unfolding i2 [OF that] by (simp add: delete_rows_apply)
  qed
  have j3: "lk' (c, r + shift_amount ls r) = lk (c, r)"
    if "0 \<le> c" "c < COLUMNS" "0 \<le> r" "r < M" "r \<notin> set ls" for c r
    unfolding i3 [OF that] using that by (simp add: delete_rows_apply)
  have j4: "\<exists>r. 0 \<le> r \<and> r < M \<and> r \<notin> set ls \<and> r + shift_amount ls r = t"
    if "0 \<le> c" "c < COLUMNS" "0 \<le> t" "t \<le> M" "lk' (c, t) = Some v" for c t v
  proof (rule ccontr)
    assume "\<not> ?thesis"
    then have "\<forall>r. 0 \<le> r \<and> r < M \<and> r \<notin> set ls \<longrightarrow> r + shift_amount ls r \<noteq> t" by blast
    then have "lk' (c, t) = None" by (rule i4 [OF that(1-4)])
    then show False using that(5) by simp
  qed
  have p1: "lk' (c, r + shift_amount ls r) = lk (c, r)"
    if "0 \<le> c" "c < COLUMNS" "0 \<le> r" "r < ROWS" "\<not> full_row lk r" for c r
  proof -
    have nin: "r \<notin> set ls" using that mem by blast
    then have "r \<noteq> M" using Min by blast
    then consider "r < M" | "M < r" by linarith
    then show ?thesis
    proof cases
      case 1
      then show ?thesis using j3 that nin by blast
    next
      case 2
      then have "shift_amount ls r = 0" using ub by (intro shift_amount_zero) auto
      then show ?thesis using j2 [of r c] 2 by simp
    qed
  qed
  have p2: "\<exists>r. 0 \<le> r \<and> r < ROWS \<and> \<not> full_row lk r \<and> t = r + shift_amount ls r \<and> lk (c, r) = Some v"
    if "0 \<le> c" "c < COLUMNS" "0 \<le> t" "t < ROWS" "lk' (c, t) = Some v" for c t v
  proof (cases "t \<le> M")
    case True
    from j4 [OF that(1,2,3) True that(5)]
    obtain r where r: "0 \<le> r" "r < M" "r \<notin> set ls" "r + shift_amount ls r = t" by blast
    have "lk (c, r) = Some v" using j3 [OF that(1,2) r(1,2,3)] r(4) that(5) by simp
    moreover have "\<not> full_row lk r" "r < ROWS" using r MR mem by auto
    ultimately show ?thesis using r by blast
  next
    case False
    then have "shift_amount ls t = 0" using ub by (intro shift_amount_zero) auto
    moreover have "lk (c, t) = Some v" using j2 [of t c] False that(5) by simp
    moreover have "\<not> full_row lk t" using False ub mem that by auto
    ultimately show ?thesis using that by auto
  qed
  have p3: "lk' (c, t) = lk (c, t)" if "\<not> (0 \<le> c \<and> c < COLUMNS \<and> 0 \<le> t \<and> t < ROWS)" for c t
  proof (cases "0 \<le> c \<and> c < COLUMNS")
    case True
    then have "t < 0 \<or> M < t" using that MR by auto
    then show ?thesis by (rule j2)
  next
    case False
    then show ?thesis by (rule j1)
  qed
  show ?thesis using p1 p2 p3 by blast
qed

lemma py_range_COLUMNS: "py_range COLUMNS = [0, 1, 2, 3, 4, 5, 6, 7, 8, 9]"
  by (simp add: py_range_def COLUMNS_def upt_rec)

lemma py_range_ROWS:
  "py_range ROWS = [0, 1, 2, 3, 4, 5, 6, 7, 8, 9, 10, 11, 12, 13, 14, 15, 16, 17, 18, 19]"
  by (simp add: py_range_def ROWS_def upt_rec)

subsection \<open>Rounding to a float\<close>

lemma rte_cases: "round_ties_even q = \<lfloor>q\<rfloor> \<or> round_ties_even q = \<lfloor>q\<rfloor> + 1"
  by (simp add: round_ties_even_def Let_def)

lemma rte_of_int: "round_ties_even (of_int n) = n"
  by (simp add: round_ties_even_def Let_def)

lemma rte_mono:
  assumes "a \<le> b"
  shows "round_ties_even a \<le> round_ties_even b"
proof (cases "\<lfloor>a\<rfloor> = \<lfloor>b\<rfloor>")
  case True
  then show ?thesis using assms by (auto simp: round_ties_even_def Let_def)
next
  case False
  then have "\<lfloor>a\<rfloor> < \<lfloor>b\<rfloor>" using assms floor_mono [of a b] by linarith
  then have "\<lfloor>a\<rfloor> + 1 \<le> \<lfloor>b\<rfloor>" by simp
  moreover have "round_ties_even a \<le> \<lfloor>a\<rfloor> + 1" using rte_cases [of a] by linarith
  moreover have "\<lfloor>b\<rfloor> \<le> round_ties_even b" using rte_cases [of b] by linarith
  ultimately show ?thesis by linarith
qed

lemma rte_bounds:
  assumes "of_int n \<le> q" "q \<le> of_int m"
  shows "n \<le> round_ties_even q \<and> round_ties_even q \<le> m"
  using rte_mono [OF assms(1)] rte_mono [OF assms(2)] by (simp add: rte_of_int)

lemma round_double_eval:
  assumes "x \<noteq> 0" "2 powr of_int e \<le> \<bar>x\<bar>" "\<bar>x\<bar> < 2 powr of_int (e + 1)"
  shows "round_double x =
     sgn x * (of_int (round_ties_even (\<bar>x\<bar> / 2 powr of_int (e - 52))) * 2 powr of_int (e - 52))"
proof -
  have "\<lfloor>log 2 \<bar>x\<bar>\<rfloor> = e"
    using assms by (subst floor_log_eq_powr_iff) simp_all
  then show ?thesis using assms(1) by (simp add: round_double_def Let_def)
qed

lemma round_double_minus: "round_double (- x) = - round_double x"
  by (simp add: round_double_def Let_def sgn_minus)

lemma round_double_0: "round_double 0 = 0"
  by (simp add: round_double_def)

lemma round_double_range:
  assumes "0 < x"
  shows "2 powr of_int \<lfloor>log 2 x\<rfloor> \<le> round_double x \<and>
         round_double x \<le> 2 powr of_int (\<lfloor>log 2 x\<rfloor> + 1)"
proof -
  define e where "e = \<lfloor>log 2 x\<rfloor>"
  define u :: real where "u = 2 powr of_int (e - 52)"
  have u0: "0 < u" by (simp add: u_def)
  have lo: "2 powr of_int e \<le> x" and hi: "x < 2 powr of_int (e + 1)"
    using assms floor_log_eq_powr_iff [of x 2 e] by (simp_all add: e_def)
  have p1: "2 powr of_int e = 2 ^ 52 * u"
    unfolding u_def by (simp add: powr_diff powr_realpow [symmetric])
  have p2: "2 powr of_int (e + 1) = 2 ^ 53 * u"
    unfolding u_def by (simp add: powr_diff powr_add powr_realpow [symmetric])
  have q1: "of_int (2 ^ 52) \<le> x / u" using lo u0 unfolding p1 by (simp add: pos_le_divide_eq)
  have q2: "x / u \<le> of_int (2 ^ 53)" using hi u0 unfolding p2 by (simp add: pos_divide_le_eq)
  from rte_bounds [OF q1 q2]
  have r: "2 ^ 52 \<le> round_ties_even (x / u)" "round_ties_even (x / u) \<le> 2 ^ 53" by simp_all
  have rd: "round_double x = of_int (round_ties_even (x / u)) * u"
    using assms by (simp add: round_double_def Let_def e_def u_def)
  have "2 ^ 52 * u \<le> of_int (round_ties_even (x / u)) * u"
    using r(1) u0 by (simp add: of_int_le_iff [symmetric] del: of_int_le_iff)
  moreover have "of_int (round_ties_even (x / u)) * u \<le> 2 ^ 53 * u"
    using r(2) u0 by (simp add: of_int_le_iff [symmetric] del: of_int_le_iff)
  ultimately show ?thesis unfolding rd e_def [symmetric] p1 p2 by simp
qed

lemma round_double_pos: "0 < x \<Longrightarrow> 0 < round_double x"
proof -
  assume "0 < x"
  from round_double_range [OF this] have "2 powr of_int \<lfloor>log 2 x\<rfloor> \<le> round_double x" by blast
  moreover have "(0::real) < 2 powr of_int \<lfloor>log 2 x\<rfloor>" by simp
  ultimately show ?thesis by linarith
qed

lemma round_double_mono_pos:
  assumes "0 < x" "x \<le> y"
  shows "round_double x \<le> round_double y"
proof -
  have y: "0 < y" using assms by linarith
  define e where "e = \<lfloor>log 2 x\<rfloor>"
  define e' where "e' = \<lfloor>log 2 y\<rfloor>"
  have le: "e \<le> e'" unfolding e_def e'_def using assms by (intro floor_mono) simp
  show ?thesis
  proof (cases "e = e'")
    case True
    define u :: real where "u = 2 powr of_int (e - 52)"
    have u0: "0 < u" by (simp add: u_def)
    have rx: "round_double x = of_int (round_ties_even (x / u)) * u"
      using assms by (simp add: round_double_def Let_def e_def u_def)
    have ry: "round_double y = of_int (round_ties_even (y / u)) * u"
      using y True by (simp add: round_double_def Let_def e'_def u_def)
    have "x / u \<le> y / u" using assms u0 by (simp add: divide_right_mono)
    then have "round_ties_even (x / u) \<le> round_ties_even (y / u)" by (rule rte_mono)
    then show ?thesis unfolding rx ry using u0 by simp
  next
    case False
    then have "e + 1 \<le> e'" using le by simp
    then have "(2::real) powr of_int (e + 1) \<le> 2 powr of_int e'" by simp
    moreover have "round_double x \<le> 2 powr of_int (e + 1)"
      using round_double_range [OF assms(1)] by (simp add: e_def)
    moreover have "2 powr of_int e' \<le> round_double y"
      using round_double_range [OF y] by (simp add: e'_def)
    ultimately show ?thesis by linarith
  qed
qed

lemma round_double_mono:
  assumes "x \<le> y"
  shows "round_double x \<le> round_double y"
proof -
  consider "0 < x" | "x = 0" | "x < 0" "0 \<le> y" | "x < 0" "y < 0" by linarith
  then show ?thesis
  proof cases
    case 1
    then show ?thesis using assms by (rule round_double_mono_pos)
  next
    case 2
    show ?thesis
    proof (cases "y = 0")
      case True
      then show ?thesis using 2 by simp
    next
      case False
      then have "0 < y" using 2 assms by simp
      then show ?thesis using round_double_pos [of y] 2 by (simp add: round_double_0)
    qed
  next
    case 3
    have "round_double x = - round_double (- x)" by (simp add: round_double_minus)
    moreover have "0 < round_double (- x)" using 3 by (intro round_double_pos) simp
    moreover have "0 \<le> round_double y"
      using 3 round_double_pos [of y] by (cases "y = 0") (simp_all add: round_double_0)
    ultimately show ?thesis by linarith
  next
    case 4
    have "round_double (- y) \<le> round_double (- x)"
      using 4 assms by (intro round_double_mono_pos) simp_all
    then show ?thesis by (simp add: round_double_minus)
  qed
qed

lemma rd_005: "round_double 0.05 = 3602879701896397 / 2 ^ 56"
proof -
  have "round_double 0.05 = sgn (0.05::real) *
      (of_int (round_ties_even (\<bar>0.05\<bar> / 2 powr of_int (- 5 - 52))) * 2 powr of_int (- 5 - 52))"
    by (rule round_double_eval) (simp_all add: powr_minus)
  also have "\<dots> = 3602879701896397 / 2 ^ 56"
    by (simp add: powr_minus round_ties_even_def Let_def)
  finally show ?thesis .
qed

lemma rd_06: "round_double 0.6 = 5404319552844595 / 2 ^ 53"
proof -
  have "round_double 0.6 = sgn (0.6::real) *
      (of_int (round_ties_even (\<bar>0.6\<bar> / 2 powr of_int (- 1 - 52))) * 2 powr of_int (- 1 - 52))"
    by (rule round_double_eval) (simp_all add: powr_minus)
  also have "\<dots> = 5404319552844595 / 2 ^ 53"
    by (simp add: powr_minus round_ties_even_def Let_def)
  finally show ?thesis .
qed

lemma rd_1: "round_double 1 = 1"
proof -
  have "round_double 1 = sgn (1::real) *
      (of_int (round_ties_even (\<bar>1\<bar> / 2 powr of_int (0 - 52))) * 2 powr of_int (0 - 52))"
    by (rule round_double_eval) simp_all
  also have "\<dots> = 1"
    by (simp add: powr_minus round_ties_even_def Let_def)
  finally show ?thesis .
qed

lemma rd_005_again: "round_double (3602879701896397 / 2 ^ 56) = 3602879701896397 / 2 ^ 56"
proof -
  have "round_double (3602879701896397 / 2 ^ 56) = sgn (3602879701896397 / 2 ^ 56 :: real) *
      (of_int (round_ties_even (\<bar>3602879701896397 / 2 ^ 56\<bar> / 2 powr of_int (- 5 - 52))) *
       2 powr of_int (- 5 - 52))"
    by (rule round_double_eval) (simp_all add: powr_minus)
  also have "\<dots> = 3602879701896397 / 2 ^ 56"
    by (simp add: powr_minus round_ties_even_def Let_def)
  finally show ?thesis .
qed

lemma rd_sub: "round_double (5404319552844595 / 2 ^ 53 - 3602879701896397 / 2 ^ 56) =
    4953959590107545 / 2 ^ 53"
proof -
  have v: "(5404319552844595 / 2 ^ 53 - 3602879701896397 / 2 ^ 56 :: real) = 39631676720860363 / 2 ^ 56"
    by simp
  have "round_double (39631676720860363 / 2 ^ 56) = sgn (39631676720860363 / 2 ^ 56 :: real) *
      (of_int (round_ties_even (\<bar>39631676720860363 / 2 ^ 56\<bar> / 2 powr of_int (- 1 - 52))) *
       2 powr of_int (- 1 - 52))"
    by (rule round_double_eval) (simp_all add: powr_minus)
  also have "\<dots> = 4953959590107545 / 2 ^ 53"
    by (simp add: powr_minus round_ties_even_def Let_def)
  finally show ?thesis unfolding v .
qed

lemma new_fall_speed_2: "new_fall_speed 2 = 4953959590107545 / 2 ^ 53"
proof -
  have i: "float_of_int (2 - 1) = 1" unfolding float_of_int_def using rd_1 by simp
  have m: "float_mul (float_of_int (2 - 1)) (round_double 0.05) = 3602879701896397 / 2 ^ 56"
    unfolding i float_mul_def rd_005 mult_1 by (rule rd_005_again)
  have d: "float_sub (round_double 0.6) (float_mul (float_of_int (2 - 1)) (round_double 0.05)) =
      4953959590107545 / 2 ^ 53"
    unfolding m float_sub_def rd_06 by (rule rd_sub)
  have "new_fall_speed 2 = max (round_double 0.05) (4953959590107545 / 2 ^ 53)"
    unfolding new_fall_speed_def d ..
  also have "\<dots> = 4953959590107545 / 2 ^ 53" unfolding rd_005 by simp
  finally show ?thesis .
qed

lemma new_fall_speed_mono: "l \<le> l' \<Longrightarrow> new_fall_speed l' \<le> new_fall_speed l"
proof -
  assume "l \<le> l'"
  then have "float_of_int (l - 1) \<le> float_of_int (l' - 1)"
    unfolding float_of_int_def by (intro round_double_mono) simp
  moreover have "0 \<le> round_double 0.05" unfolding rd_005 by simp
  ultimately have "float_of_int (l - 1) * round_double 0.05 \<le> float_of_int (l' - 1) * round_double 0.05"
    by (rule mult_right_mono)
  then have "float_mul (float_of_int (l - 1)) (round_double 0.05)
      \<le> float_mul (float_of_int (l' - 1)) (round_double 0.05)"
    unfolding float_mul_def by (rule round_double_mono)
  then have "float_sub (round_double 0.6) (float_mul (float_of_int (l' - 1)) (round_double 0.05))
      \<le> float_sub (round_double 0.6) (float_mul (float_of_int (l - 1)) (round_double 0.05))"
    unfolding float_sub_def by (intro round_double_mono) simp
  then show ?thesis unfolding new_fall_speed_def by (rule max.mono [OF order_refl])
qed

lemma new_fall_speed_floor: "round_double 0.05 \<le> new_fall_speed l"
  by (simp add: new_fall_speed_def)

subsection \<open>Locking a piece\<close>

lemma lock_cells_fst:
  "fst (lock_cells cs col (lk, over)) k =
     (if k \<in> set cs \<and> 0 \<le> snd k then Some col else lk k)"
proof (induction cs col "(lk, over)" arbitrary: lk over rule: lock_cells.induct)
  case (1 col)
  then show ?case by simp
next
  case (2 cx cy cs col lk over)
  then show ?case by (cases k) (auto simp del: not_None_eq)
qed

lemma lock_cells_snd:
  "snd (lock_cells cs col (lk, over)) = (over \<or> list_ex (\<lambda>(cx, cy). cy < 0) cs)"
  by (induction cs col "(lk, over)" arbitrary: lk over rule: lock_cells.induct) auto

lemma update_stats_fields:
  "locked (update_stats n g) = locked g" "grid (update_stats n g) = grid g"
  "current (update_stats n g) = current g" "next_piece (update_stats n g) = next_piece g"
  "game_over (update_stats n g) = game_over g" "fall_time (update_stats n g) = fall_time g"
  by (simp_all add: update_stats_def Let_def)

lemma lock_piece_eq:
  "lock_piece k g =
     (update_stats (fst (clear_lines (make_grid (fst (merge_piece g))) (fst (merge_piece g))))
        (g\<lparr>locked := snd (clear_lines (make_grid (fst (merge_piece g))) (fst (merge_piece g))),
           grid := make_grid (fst (merge_piece g)),
           game_over := snd (merge_piece g)\<rparr>))
     \<lparr>current := next_piece g, next_piece := get_new_piece k\<rparr>"
  by (simp add: lock_piece_def Let_def update_stats_fields split: prod.splits)

lemma lock_piece_stats_core:
  "(let lk = fst (merge_piece g); n = fst (clear_lines (make_grid lk) lk); g' = lock_piece k g in
     (n \<noteq> 0 \<longrightarrow>
        score g' = score g + score_table_get n * level g \<and>
        lines g' = lines g + n \<and>
        level g' = (lines g + n) div 10 + 1 \<and>
        fall_speed g' = max (round_double 0.05)
            (float_sub (round_double 0.6) (float_mul (float_of_int (level g' - 1)) (round_double 0.05)))) \<and>
     (n = 0 \<longrightarrow>
        score g' = score g \<and> lines g' = lines g \<and> level g' = level g \<and>
        fall_speed g' = fall_speed g))"
  unfolding Let_def lock_piece_eq
  by (simp add: update_stats_def Let_def new_fall_speed_def)

subsection \<open>Clearing lines: the result\<close>

lemma clear_lines_in_well:
  assumes "dom lk \<subseteq> {0..<COLUMNS} \<times> {0..<ROWS}"
  shows "dom (snd (clear_lines (make_grid lk) lk)) \<subseteq> {0..<COLUMNS} \<times> {0..<ROWS}"
proof
  fix k assume k: "k \<in> dom (snd (clear_lines (make_grid lk) lk))"
  obtain c t where ct: "k = (c, t)" by (cases k)
  show "k \<in> {0..<COLUMNS} \<times> {0..<ROWS}"
  proof (rule ccontr)
    assume "k \<notin> {0..<COLUMNS} \<times> {0..<ROWS}"
    then have out: "\<not> (0 \<le> c \<and> c < COLUMNS \<and> 0 \<le> t \<and> t < ROWS)" using ct by auto
    have "snd (clear_lines (make_grid lk) lk) (c, t) = lk (c, t)"
      using clear_lines_cells [of lk, THEN conjunct2, THEN conjunct2, rule_format, OF out] .
    then have "(c, t) \<in> dom lk" using k ct by (simp add: domIff)
    then show False using assms out by auto
  qed
qed

lemma clear_lines_no_full_row:
  assumes t: "0 \<le> t" "t < ROWS"
  shows "\<not> full_row (snd (clear_lines (make_grid lk) lk)) t"
proof
  define ls where "ls = lines_to_clear (make_grid lk)"
  define lk' where "lk' = snd (clear_lines (make_grid lk) lk)"
  assume "full_row (snd (clear_lines (make_grid lk) lk)) t"
  then have full: "\<And>c. 0 \<le> c \<Longrightarrow> c < COLUMNS \<Longrightarrow> lk' (c, t) \<noteq> None"
    unfolding full_row_iff lk'_def by blast
  have d: "distinct ls" unfolding ls_def by (rule distinct_lines_to_clear)
  have mem: "r \<in> set ls \<longleftrightarrow> 0 \<le> r \<and> r < ROWS \<and> full_row lk r" for r
    unfolding ls_def set_lines_to_clear by simp
  have src: "\<exists>r. 0 \<le> r \<and> r < ROWS \<and> \<not> full_row lk r \<and> t = r + shift_amount ls r \<and> lk (c, r) \<noteq> None"
    if "0 \<le> c" "c < COLUMNS" for c
  proof -
    from full [OF that] obtain v where "lk' (c, t) = Some v" by blast
    then show ?thesis
      using clear_lines_cells [of lk, THEN conjunct2, THEN conjunct1, rule_format, of c t v] that t
      unfolding lk'_def ls_def by blast
  qed
  have c0: "0 \<le> (0::int)" "(0::int) < COLUMNS" by (simp_all add: COLUMNS_def)
  from src [OF c0] obtain r where r: "0 \<le> r" "r < ROWS" "\<not> full_row lk r" "t = r + shift_amount ls r"
    by blast
  have rn: "r \<notin> set ls" using r mem by blast
  have "lk (c, r) \<noteq> None" if "0 \<le> c" "c < COLUMNS" for c
  proof -
    from src [OF that] obtain r' where r': "0 \<le> r'" "r' < ROWS" "\<not> full_row lk r'"
        "t = r' + shift_amount ls r'" "lk (c, r') \<noteq> None"
      by blast
    have r'n: "r' \<notin> set ls" using r' mem by blast
    have "r' = r"
    proof (rule ccontr)
      assume "r' \<noteq> r"
      then consider "r' < r" | "r < r'" by linarith
      then show False
      proof cases
        case 1
        from shift_amount_strict [OF d 1 rn] show False using r(4) r'(4) by simp
      next
        case 2
        from shift_amount_strict [OF d 2 r'n] show False using r(4) r'(4) by simp
      qed
    qed
    then show ?thesis using r'(5) by simp
  qed
  then have "full_row lk r" unfolding full_row_iff by blast
  then show False using r(3) by blast
qed

text \<open>
  Claim C1. The dictionary of the game has all its keys inside the well (column in
  \<open>[0, COLUMNS)\<close>, row in \<open>[0, ROWS)\<close>): \<^verbatim>\<open>lock_piece\<close>, the only caller of
  \<^verbatim>\<open>clear_lines\<close> and the only writer of the dictionary, stores only the cells with a
  row from 0 up of a piece at a position that \<^verbatim>\<open>valid_space\<close> accepts. For
  every such dictionary \<^verbatim>\<open>clear_lines\<close> returns the number of full rows; if no row is
  full it returns 0 and the dictionary is unchanged; every occupied cell of a row that
  is not full moves down by exactly the number of full rows with a strictly greater row
  index, also when the full rows are not adjacent; every cell of the result is such a
  moved cell, so each full row is removed; no row of the result is full, and its keys
  are inside the well again.
\<close>

theorem clear_lines_spec:
  assumes w: "dom lk \<subseteq> {0..<COLUMNS} \<times> {0..<ROWS}"
  shows
  "fst (clear_lines (make_grid lk) lk) = int (card {r. 0 \<le> r \<and> r < ROWS \<and> full_row lk r}) \<and>
   ((\<forall>r. 0 \<le> r \<and> r < ROWS \<longrightarrow> \<not> full_row lk r) \<longrightarrow> clear_lines (make_grid lk) lk = (0, lk)) \<and>
   (\<forall>c r v. lk (c, r) = Some v \<and> \<not> full_row lk r \<longrightarrow>
      snd (clear_lines (make_grid lk) lk)
        (c, r + int (card {r'. 0 \<le> r' \<and> r' < ROWS \<and> full_row lk r' \<and> r < r'})) = Some v) \<and>
   (\<forall>c t v. snd (clear_lines (make_grid lk) lk) (c, t) = Some v \<longrightarrow>
      (\<exists>r. \<not> full_row lk r \<and>
           t = r + int (card {r'. 0 \<le> r' \<and> r' < ROWS \<and> full_row lk r' \<and> r < r'}) \<and>
           lk (c, r) = Some v)) \<and>
   (\<forall>t. 0 \<le> t \<and> t < ROWS \<longrightarrow> \<not> full_row (snd (clear_lines (make_grid lk) lk)) t) \<and>
   dom (snd (clear_lines (make_grid lk) lk)) \<subseteq> {0..<COLUMNS} \<times> {0..<ROWS}"
proof -
  define lk' where "lk' = snd (clear_lines (make_grid lk) lk)"
  note cells = clear_lines_cells [of lk, unfolded shift_amount_lines, folded lk'_def]
  have w': "dom lk' \<subseteq> {0..<COLUMNS} \<times> {0..<ROWS}"
    unfolding lk'_def by (rule clear_lines_in_well [OF w])
  have inw: "0 \<le> c \<and> c < COLUMNS \<and> 0 \<le> r \<and> r < ROWS" if "lk (c, r) = Some v" for c r v
  proof -
    have "(c, r) \<in> dom lk" using that by (simp add: domIff)
    then show ?thesis using w by auto
  qed
  have inw': "0 \<le> c \<and> c < COLUMNS \<and> 0 \<le> t \<and> t < ROWS" if "lk' (c, t) = Some v" for c t v
  proof -
    have "(c, t) \<in> dom lk'" using that by (simp add: domIff)
    then show ?thesis using w' by auto
  qed
  have p3: "lk' (c, r + int (card {r'. 0 \<le> r' \<and> r' < ROWS \<and> full_row lk r' \<and> r < r'})) = Some v"
    if "lk (c, r) = Some v" "\<not> full_row lk r" for c r v
    using cells [THEN conjunct1, rule_format, of c r] inw [OF that(1)] that by simp
  have p4: "\<exists>r. \<not> full_row lk r \<and>
           t = r + int (card {r'. 0 \<le> r' \<and> r' < ROWS \<and> full_row lk r' \<and> r < r'}) \<and>
           lk (c, r) = Some v"
    if "lk' (c, t) = Some v" for c t v
    using cells [THEN conjunct2, THEN conjunct1, rule_format, of c t v] inw' [OF that] that by blast
  have p5: "\<forall>t. 0 \<le> t \<and> t < ROWS \<longrightarrow> \<not> full_row lk' t"
    unfolding lk'_def using clear_lines_no_full_row by blast
  show ?thesis
    unfolding lk'_def [symmetric]
    using clear_lines_count [of lk] clear_lines_none [of lk] p3 p4 p5 w'
    unfolding lk'_def [symmetric] by blast
qed

theorem clear_lines_spec_witness:
  "(let lk = map_of [((0, 19), (0, 240, 240)), ((1, 19), (0, 240, 240)), ((2, 19), (0, 240, 240)), ((3, 19), (0, 240, 240)), ((4, 19), (0, 240, 240)), ((5, 19), (0, 240, 240)), ((6, 19), (0, 240, 240)), ((7, 19), (0, 240, 240)), ((8, 19), (0, 240, 240)), ((9, 19), (0, 240, 240)), ((3, 18), (240, 240, 0)), ((0, 17), (0, 240, 240)), ((1, 17), (0, 240, 240)), ((2, 17), (0, 240, 240)), ((3, 17), (0, 240, 240)), ((4, 17), (0, 240, 240)), ((5, 17), (0, 240, 240)), ((6, 17), (0, 240, 240)), ((7, 17), (0, 240, 240)), ((8, 17), (0, 240, 240)), ((9, 17), (0, 240, 240)), ((5, 16), (240, 240, 0))] in
     dom lk \<subseteq> {0..<COLUMNS} \<times> {0..<ROWS} \<and>
     fst (clear_lines (make_grid lk) lk) = 2 \<and>
     \<not> full_row lk 18 \<and> \<not> full_row lk 16 \<and> full_row lk 19 \<and> full_row lk 17 \<and>
     lk (3, 18) = Some (240, 240, 0) \<and> lk (5, 16) = Some (240, 240, 0) \<and>
     snd (clear_lines (make_grid lk) lk) (3, 19) = Some (240, 240, 0) \<and>
     snd (clear_lines (make_grid lk) lk) (5, 18) = Some (240, 240, 0) \<and>
     snd (clear_lines (make_grid lk) lk) (5, 16) = None)"
proof -
  define lk :: locked where "lk = map_of [((0, 19), (0, 240, 240)), ((1, 19), (0, 240, 240)), ((2, 19), (0, 240, 240)), ((3, 19), (0, 240, 240)), ((4, 19), (0, 240, 240)), ((5, 19), (0, 240, 240)), ((6, 19), (0, 240, 240)), ((7, 19), (0, 240, 240)), ((8, 19), (0, 240, 240)), ((9, 19), (0, 240, 240)), ((3, 18), (240, 240, 0)), ((0, 17), (0, 240, 240)), ((1, 17), (0, 240, 240)), ((2, 17), (0, 240, 240)), ((3, 17), (0, 240, 240)), ((4, 17), (0, 240, 240)), ((5, 17), (0, 240, 240)), ((6, 17), (0, 240, 240)), ((7, 17), (0, 240, 240)), ((8, 17), (0, 240, 240)), ((9, 17), (0, 240, 240)), ((5, 16), (240, 240, 0))]"
  have w: "dom lk \<subseteq> {0..<COLUMNS} \<times> {0..<ROWS}"
    unfolding lk_def dom_map_of_conv_image_fst by (simp add: COLUMNS_def ROWS_def)
  have ls: "lines_to_clear (make_grid lk) = [17, 19]"
    unfolding lines_to_clear_make_grid py_range_ROWS
    by (simp add: full_row_def py_range_COLUMNS lk_def)
  have f: "\<not> full_row lk 18" "\<not> full_row lk 16" "full_row lk 19" "full_row lk 17"
    by (simp_all add: full_row_def py_range_COLUMNS lk_def)
  have c18: "int (card {r'. 0 \<le> r' \<and> r' < ROWS \<and> full_row lk r' \<and> 18 < r'}) = 1"
    unfolding shift_amount_lines [symmetric] ls by (simp add: shift_amount_def)
  have c16: "int (card {r'. 0 \<le> r' \<and> r' < ROWS \<and> full_row lk r' \<and> 16 < r'}) = 2"
    unfolding shift_amount_lines [symmetric] ls by (simp add: shift_amount_def)
  have n: "int (card {r. 0 \<le> r \<and> r < ROWS \<and> full_row lk r}) = 2"
    unfolding set_lines_to_clear [symmetric] ls by simp
  have 5: "lk (3, 18) = Some (240, 240, 0)" "lk (5, 16) = Some (240, 240, 0)"
    by (simp_all add: lk_def)
  note spec = clear_lines_spec [OF w]
  have 1: "fst (clear_lines (make_grid lk) lk) = 2" using spec n by simp
  have 2: "snd (clear_lines (make_grid lk) lk) (3, 19) = Some (240, 240, 0)"
    using spec [THEN conjunct2, THEN conjunct2, THEN conjunct1, rule_format, of 3 18 "(240, 240, 0)"]
      f 5 c18 by simp
  have 3: "snd (clear_lines (make_grid lk) lk) (5, 18) = Some (240, 240, 0)"
    using spec [THEN conjunct2, THEN conjunct2, THEN conjunct1, rule_format, of 5 16 "(240, 240, 0)"]
      f 5 c16 by simp
  have 4: "snd (clear_lines (make_grid lk) lk) (5, 16) = None"
  proof (cases "snd (clear_lines (make_grid lk) lk) (5, 16)")
    case None
    then show ?thesis .
  next
    case (Some v)
    then obtain r where r: "\<not> full_row lk r"
        "16 = r + int (card {r'. 0 \<le> r' \<and> r' < ROWS \<and> full_row lk r' \<and> r < r'})"
        "lk (5, r) = Some v"
      using spec [THEN conjunct2, THEN conjunct2, THEN conjunct2, THEN conjunct1, rule_format, of 5 16 v]
      by blast
    have "r \<le> 16" using r(2) by linarith
    then have "r < 17" by simp
    then have "int (card {r'. 0 \<le> r' \<and> r' < ROWS \<and> full_row lk r' \<and> r < r'}) = 2"
      unfolding shift_amount_lines [symmetric] ls by (simp add: shift_amount_def)
    then have "r = 14" using r(2) by simp
    then show ?thesis using r(3) by (simp add: lk_def)
  qed
  show ?thesis unfolding Let_def lk_def [symmetric] using w 1 2 3 4 5 f by simp
qed

subsection \<open>The keys of the dictionary stay inside the well\<close>

lemma merge_piece_fst:
  "fst (merge_piece g) k =
     (if k \<in> set (shape_cells (shape (current g)) (px (current g)) (py (current g))) \<and> 0 \<le> snd k
      then Some (color (current g)) else locked g k)"
  unfolding merge_piece_def by (rule lock_cells_fst)

lemma merge_piece_snd:
  "snd (merge_piece g) =
     (game_over g \<or> list_ex (\<lambda>(cx, cy). cy < 0)
        (shape_cells (shape (current g)) (px (current g)) (py (current g))))"
  unfolding merge_piece_def by (rule lock_cells_snd)

lemma locked_lock_piece:
  "locked (lock_piece k g) = snd (clear_lines (make_grid (fst (merge_piece g))) (fst (merge_piece g)))"
  unfolding lock_piece_eq by (simp add: update_stats_fields)

lemma game_over_lock_piece: "game_over (lock_piece k g) = snd (merge_piece g)"
  unfolding lock_piece_eq by (simp add: update_stats_fields)

lemma merge_piece_in_well:
  assumes w: "dom (locked g) \<subseteq> {0..<COLUMNS} \<times> {0..<ROWS}"
    and v: "valid_space (shape (current g)) (px (current g)) (py (current g)) (locked g)"
  shows "dom (fst (merge_piece g)) \<subseteq> {0..<COLUMNS} \<times> {0..<ROWS}"
proof
  fix k assume k: "k \<in> dom (fst (merge_piece g))"
  obtain c t where ct: "k = (c, t)" by (cases k)
  show "k \<in> {0..<COLUMNS} \<times> {0..<ROWS}"
  proof (cases "k \<in> set (shape_cells (shape (current g)) (px (current g)) (py (current g))) \<and> 0 \<le> snd k")
    case True
    then have "0 \<le> c \<and> c < COLUMNS \<and> t < ROWS" "0 \<le> t"
      using v ct unfolding valid_space_def valid_cells_iff by auto
    then show ?thesis using ct by simp
  next
    case False
    then have "fst (merge_piece g) k = locked g k" unfolding merge_piece_fst by auto
    then have "k \<in> dom (locked g)" using k by (simp add: domIff)
    then show ?thesis using w by blast
  qed
qed

lemma shape_cells_O: "shape_cells [''11'', ''11''] x y = [(x, y), (x + 1, y), (x, y + 1), (x + 1, y + 1)]"
  by (simp add: shape_cells_def)

text \<open>
  Claim C9. Every key of the dictionary has its column in \<open>[0, COLUMNS)\<close> and its row in
  \<open>[0, ROWS)\<close>; no negative row is ever stored. This holds after \<^verbatim>\<open>reset\<close>, and it is
  kept by \<^verbatim>\<open>clear_lines\<close>, by the merging loop of \<^verbatim>\<open>lock_piece\<close> and by \<^verbatim>\<open>lock_piece\<close>
  as a whole, for a current piece at a position that \<^verbatim>\<open>valid_space\<close> accepts.
\<close>

theorem locked_in_well:
  "dom (locked (reset k1 k2)) \<subseteq> {0..<COLUMNS} \<times> {0..<ROWS} \<and>
   (dom lk \<subseteq> {0..<COLUMNS} \<times> {0..<ROWS} \<longrightarrow>
      dom (snd (clear_lines (make_grid lk) lk)) \<subseteq> {0..<COLUMNS} \<times> {0..<ROWS}) \<and>
   (dom (locked g) \<subseteq> {0..<COLUMNS} \<times> {0..<ROWS} \<and>
    valid_space (shape (current g)) (px (current g)) (py (current g)) (locked g) \<longrightarrow>
      dom (fst (merge_piece g)) \<subseteq> {0..<COLUMNS} \<times> {0..<ROWS} \<and>
      dom (locked (lock_piece k g)) \<subseteq> {0..<COLUMNS} \<times> {0..<ROWS})"
proof -
  have r: "dom (locked (reset k1 k2)) \<subseteq> {0..<COLUMNS} \<times> {0..<ROWS}" by (simp add: reset_def)
  show ?thesis
    using r clear_lines_in_well merge_piece_in_well unfolding locked_lock_piece by blast
qed

theorem locked_in_well_witness:
  "(let g = (reset KO KO)\<lparr>current := (Piece_init KO)\<lparr>py := 18\<rparr>\<rparr> in
     dom (locked g) \<subseteq> {0..<COLUMNS} \<times> {0..<ROWS} \<and>
     valid_space (shape (current g)) (px (current g)) (py (current g)) (locked g) \<and>
     dom (Map.empty :: locked) \<subseteq> {0..<COLUMNS} \<times> {0..<ROWS} \<and>
     dom (snd (clear_lines (make_grid Map.empty) Map.empty)) \<subseteq> {0..<COLUMNS} \<times> {0..<ROWS} \<and>
     fst (merge_piece g) (4, 18) = Some (240, 240, 0) \<and>
     dom (fst (merge_piece g)) \<subseteq> {0..<COLUMNS} \<times> {0..<ROWS} \<and>
     dom (locked (lock_piece KO g)) \<subseteq> {0..<COLUMNS} \<times> {0..<ROWS})"
proof -
  define g where "g = (reset KO KO)\<lparr>current := (Piece_init KO)\<lparr>py := 18\<rparr>\<rparr>"
  have cur: "shape (current g) = [''11'', ''11'']" "px (current g) = 4" "py (current g) = 18"
    "color (current g) = (240, 240, 0)" "locked g = Map.empty"
    by (simp_all add: g_def reset_def get_new_piece_def Piece_init_def Let_def COLUMNS_def
        COLORS_def PIECE_KEYS_def)
  have w: "dom (locked g) \<subseteq> {0..<COLUMNS} \<times> {0..<ROWS}" by (simp add: cur)
  have v: "valid_space (shape (current g)) (px (current g)) (py (current g)) (locked g)"
    by (simp add: cur valid_space_def shape_cells_O COLUMNS_def ROWS_def)
  have e: "dom (Map.empty :: locked) \<subseteq> {0..<COLUMNS} \<times> {0..<ROWS}" by simp
  have m: "fst (merge_piece g) (4, 18) = Some (240, 240, 0)"
    by (simp add: merge_piece_fst cur shape_cells_O)
  note t = locked_in_well [of KO KO Map.empty g KO]
  have 1: "dom (snd (clear_lines (make_grid Map.empty) Map.empty)) \<subseteq> {0..<COLUMNS} \<times> {0..<ROWS}"
    using t e by blast
  have 2: "dom (fst (merge_piece g)) \<subseteq> {0..<COLUMNS} \<times> {0..<ROWS} \<and>
      dom (locked (lock_piece KO g)) \<subseteq> {0..<COLUMNS} \<times> {0..<ROWS}"
    using t w v by blast
  show ?thesis unfolding Let_def g_def [symmetric] using w v e m 1 2 by blast
qed

subsection \<open>Merging the piece\<close>

text \<open>
  Claim C3, as the code has it. The merging loop of \<^verbatim>\<open>lock_piece\<close> stores the colour of
  the piece at every cell of the shape (translated by the anchor) whose row is not
  negative and changes no other key; a cell with a negative row is not stored. The
  game-over flag afterwards is set exactly when it was set before or some cell of the
  piece has a negative row, and that is the flag \<^verbatim>\<open>lock_piece\<close> leaves in the state:
  the condition is reported through the flag, and \<^verbatim>\<open>lock_piece\<close> always returns.
\<close>

theorem merge_piece_spec:
  "(\<forall>cx cy. (cx, cy) \<in> set (shape_cells (shape (current g)) (px (current g)) (py (current g))) \<and> 0 \<le> cy
      \<longrightarrow> fst (merge_piece g) (cx, cy) = Some (color (current g))) \<and>
   (\<forall>cx cy. \<not> ((cx, cy) \<in> set (shape_cells (shape (current g)) (px (current g)) (py (current g))) \<and> 0 \<le> cy)
      \<longrightarrow> fst (merge_piece g) (cx, cy) = locked g (cx, cy)) \<and>
   snd (merge_piece g) =
     (game_over g \<or> list_ex (\<lambda>(cx, cy). cy < 0)
        (shape_cells (shape (current g)) (px (current g)) (py (current g)))) \<and>
   game_over (lock_piece k g) = snd (merge_piece g)"
proof -
  have 1: "\<forall>cx cy. (cx, cy) \<in> set (shape_cells (shape (current g)) (px (current g)) (py (current g))) \<and> 0 \<le> cy
      \<longrightarrow> fst (merge_piece g) (cx, cy) = Some (color (current g))"
    unfolding merge_piece_fst by simp
  have 2: "\<forall>cx cy. \<not> ((cx, cy) \<in> set (shape_cells (shape (current g)) (px (current g)) (py (current g))) \<and> 0 \<le> cy)
      \<longrightarrow> fst (merge_piece g) (cx, cy) = locked g (cx, cy)"
    unfolding merge_piece_fst by auto
  show ?thesis using 1 2 merge_piece_snd [of g] game_over_lock_piece [of k g] by blast
qed

theorem merge_piece_spec_witness:
  "(let g = (reset KO KO)\<lparr>current := (Piece_init KO)\<lparr>py := 18\<rparr>\<rparr> in
     (4, 18) \<in> set (shape_cells (shape (current g)) (px (current g)) (py (current g))) \<and>
     fst (merge_piece g) (4, 18) = Some (240, 240, 0) \<and>
     (0, 0) \<notin> set (shape_cells (shape (current g)) (px (current g)) (py (current g))) \<and>
     fst (merge_piece g) (0, 0) = None \<and>
     \<not> snd (merge_piece g) \<and> \<not> game_over (lock_piece KO g))"
proof -
  define g where "g = (reset KO KO)\<lparr>current := (Piece_init KO)\<lparr>py := 18\<rparr>\<rparr>"
  have cur: "shape (current g) = [''11'', ''11'']" "px (current g) = 4" "py (current g) = 18"
    "color (current g) = (240, 240, 0)" "locked g = Map.empty" "game_over g = False"
    by (simp_all add: g_def reset_def get_new_piece_def Piece_init_def Let_def COLUMNS_def
        COLORS_def PIECE_KEYS_def)
  have cells: "shape_cells (shape (current g)) (px (current g)) (py (current g)) =
      [(4, 18), (5, 18), (4, 19), (5, 19)]"
    by (simp add: cur shape_cells_O)
  note t = merge_piece_spec [of g KO]
  have 1: "fst (merge_piece g) (4, 18) = Some (240, 240, 0)"
    using t [THEN conjunct1, rule_format, of 4 18] unfolding cells by (simp add: cur)
  have 2: "fst (merge_piece g) (0, 0) = None"
    using t [THEN conjunct2, THEN conjunct1, rule_format, of 0 0] unfolding cells by (simp add: cur)
  have 3: "\<not> snd (merge_piece g)"
    using t [THEN conjunct2, THEN conjunct2, THEN conjunct1] unfolding cells by (simp add: cur)
  have 4: "\<not> game_over (lock_piece KO g)"
    using t [THEN conjunct2, THEN conjunct2, THEN conjunct2] 3 by simp
  show ?thesis unfolding Let_def g_def [symmetric] using 1 2 3 4 by (simp add: cells)
qed

text \<open>
  The claim as worded has every cell of the piece written. With columns 4 and 5 full
  (ten O pieces dropped in place), the next O piece cannot move down from its spawn
  position and locks there: none of its four cells, all above the well, is stored, and
  the flag is set.
\<close>

theorem merge_above_well_counterexample:
  "(let g = (reset KO KO)\<lparr>locked :=
              (\<lambda>(c, r). if (c = 4 \<or> c = 5) \<and> 0 \<le> r \<and> r < 20 then Some (240, 240, 0) else None)\<rparr> in
     shape_cells (shape (current g)) (px (current g)) (py (current g)) =
       [(4, - 2), (5, - 2), (4, - 1), (5, - 1)] \<and>
     \<not> valid_space (shape (current g)) (px (current g)) (py (current g) + 1) (locked g) \<and>
     fst (merge_piece g) (4, - 2) = None \<and> fst (merge_piece g) (5, - 2) = None \<and>
     fst (merge_piece g) (4, - 1) = None \<and> fst (merge_piece g) (5, - 1) = None \<and>
     locked (lock_piece KO g) (4, - 2) = None \<and> locked (lock_piece KO g) (5, - 2) = None \<and>
     locked (lock_piece KO g) (4, - 1) = None \<and> locked (lock_piece KO g) (5, - 1) = None \<and>
     game_over (lock_piece KO g))"
proof -
  define g where "g = (reset KO KO)\<lparr>locked :=
              (\<lambda>(c, r). if (c = 4 \<or> c = 5) \<and> 0 \<le> r \<and> r < 20 then Some (240, 240, 0) else None)\<rparr>"
  have cur: "shape (current g) = [''11'', ''11'']" "px (current g) = 4" "py (current g) = - 2"
    "color (current g) = (240, 240, 0)" "game_over g = False"
    "locked g = (\<lambda>(c, r). if (c = 4 \<or> c = 5) \<and> 0 \<le> r \<and> r < 20 then Some (240, 240, 0) else None)"
    by (simp_all add: g_def reset_def get_new_piece_def Piece_init_def Let_def COLUMNS_def
        COLORS_def PIECE_KEYS_def)
  have cells: "shape_cells (shape (current g)) (px (current g)) (py (current g)) =
      [(4, - 2), (5, - 2), (4, - 1), (5, - 1)]"
    by (simp add: cur shape_cells_O)
  have nv: "\<not> valid_space (shape (current g)) (px (current g)) (py (current g) + 1) (locked g)"
    by (simp add: cur valid_space_def shape_cells_O COLUMNS_def ROWS_def)
  have m: "fst (merge_piece g) (c, r) = None" if "r < 0" for c r
    unfolding merge_piece_fst using that by (simp add: cur)
  have l: "locked (lock_piece KO g) (c, r) = None" if "r < 0" for c r
  proof -
    have "\<not> (0 \<le> c \<and> c < COLUMNS \<and> 0 \<le> r \<and> r < ROWS)" using that by simp
    then have "locked (lock_piece KO g) (c, r) = fst (merge_piece g) (c, r)"
      unfolding locked_lock_piece
      using clear_lines_cells [of "fst (merge_piece g)", THEN conjunct2, THEN conjunct2, rule_format, of c r]
      by blast
    then show ?thesis using m [OF that] by simp
  qed
  have o: "game_over (lock_piece KO g)"
    unfolding game_over_lock_piece merge_piece_snd by (simp add: cells)
  show ?thesis unfolding Let_def g_def [symmetric] using cells nv m l o by simp
qed

subsection \<open>Score, lines, level and fall interval\<close>

lemma shapes_height: "list_all (\<lambda>sh. length sh \<le> 4) (TETROMINOES k)"
  by (cases k) simp_all

lemma piece_height:
  assumes "piece_wf p"
  shows "length (shape p) \<le> 4"
proof -
  have rt: "rotations p = TETROMINOES (ptype p)" and r0: "0 \<le> rotation p"
    and r1: "rotation p < int (length (rotations p))"
    and sh: "shape p = rotations p ! nat (rotation p)"
    using assms unfolding piece_wf_def by blast+
  have "nat (rotation p) < length (rotations p)" using r0 r1 by linarith
  then have "rotations p ! nat (rotation p) \<in> set (rotations p)" by (rule nth_mem)
  then have "shape p \<in> set (TETROMINOES (ptype p))" unfolding sh rt .
  then show ?thesis using shapes_height [of "ptype p"] by (simp add: list_all_iff)
qed

lemma lock_clears_at_most_four:
  assumes wf: "piece_wf (current g)"
    and nf: "\<forall>r. 0 \<le> r \<and> r < ROWS \<longrightarrow> \<not> full_row (locked g) r"
  shows "fst (clear_lines (make_grid (fst (merge_piece g))) (fst (merge_piece g))) \<le> 4"
proof -
  define lk where "lk = fst (merge_piece g)"
  define y where "y = py (current g)"
  define h where "h = length (shape (current g))"
  have sub: "{r. 0 \<le> r \<and> r < ROWS \<and> full_row lk r} \<subseteq> {y..<y + int h}"
  proof
    fix r assume "r \<in> {r. 0 \<le> r \<and> r < ROWS \<and> full_row lk r}"
    then have r: "0 \<le> r" "r < ROWS" "full_row lk r" by simp_all
    then have "\<not> full_row (locked g) r" using nf by blast
    then obtain c where c: "0 \<le> c" "c < COLUMNS" "locked g (c, r) = None"
      unfolding full_row_iff by blast
    have "lk (c, r) \<noteq> None" using r(3) c(1,2) unfolding full_row_iff by blast
    then have "(c, r) \<in> set (shape_cells (shape (current g)) (px (current g)) (py (current g)))"
      using c(3) unfolding lk_def merge_piece_fst by (auto split: if_splits)
    then obtain r' where "r' < length (shape (current g))" "r = py (current g) + int r'"
      unfolding in_set_shape_cells by blast
    then show "r \<in> {y..<y + int h}" by (simp add: y_def h_def)
  qed
  have "card {r. 0 \<le> r \<and> r < ROWS \<and> full_row lk r} \<le> card {y..<y + int h}"
    by (rule card_mono [OF _ sub]) simp
  also have "\<dots> = h" by simp
  also have "h \<le> 4" unfolding h_def by (rule piece_height [OF wf])
  finally show ?thesis unfolding lk_def [symmetric] clear_lines_count by simp
qed

text \<open>
  Claim C6. With \<open>n\<close> the number of rows that the lock clears: if \<open>n\<close> is not 0 the score
  grows by the table value for \<open>n\<close> (40, 100, 300, 1200 for 1 to 4 rows) times the level
  before the update, the line count grows by \<open>n\<close>, the level becomes the line count
  divided by 10, plus 1, and the fall interval becomes \<open>max(0.05, 0.6 - (level - 1) * 0.05)\<close>
  as Python's float arithmetic computes it, which never grows with the level and never
  drops below the float \<open>0.05\<close>. If \<open>n\<close> is 0, score, lines, level and fall interval are
  unchanged. On a board without a full row, as \<^verbatim>\<open>clear_lines\<close> leaves it, \<open>n\<close> is at most 4,
  so the table has a value for it.
\<close>

theorem lock_piece_stats:
  "(let lk = fst (merge_piece g); n = fst (clear_lines (make_grid lk) lk); g' = lock_piece k g in
     (n \<noteq> 0 \<longrightarrow>
        score g' = score g + score_table_get n * level g \<and>
        lines g' = lines g + n \<and>
        level g' = (lines g + n) div 10 + 1 \<and>
        fall_speed g' = max (round_double 0.05)
            (float_sub (round_double 0.6) (float_mul (float_of_int (level g' - 1)) (round_double 0.05)))) \<and>
     (n = 0 \<longrightarrow>
        score g' = score g \<and> lines g' = lines g \<and> level g' = level g \<and>
        fall_speed g' = fall_speed g) \<and>
     0 \<le> n \<and>
     (piece_wf (current g) \<and> (\<forall>r. 0 \<le> r \<and> r < ROWS \<longrightarrow> \<not> full_row (locked g) r) \<longrightarrow> n \<le> 4)) \<and>
   score_table_get 1 = 40 \<and> score_table_get 2 = 100 \<and> score_table_get 3 = 300 \<and>
   score_table_get 4 = 1200 \<and>
   (\<forall>l l'. l \<le> l' \<longrightarrow> new_fall_speed l' \<le> new_fall_speed l) \<and>
   (\<forall>l. round_double 0.05 \<le> new_fall_speed l \<and>
        new_fall_speed l =
          max (round_double 0.05)
              (float_sub (round_double 0.6) (float_mul (float_of_int (l - 1)) (round_double 0.05))))"
proof -
  have t: "score_table_get 1 = 40 \<and> score_table_get 2 = 100 \<and> score_table_get 3 = 300 \<and>
      score_table_get 4 = 1200"
    by (simp add: score_table_get_def)
  have m: "\<forall>l l'. l \<le> l' \<longrightarrow> new_fall_speed l' \<le> new_fall_speed l"
    using new_fall_speed_mono by blast
  have f: "\<forall>l. round_double 0.05 \<le> new_fall_speed l \<and>
        new_fall_speed l =
          max (round_double 0.05)
              (float_sub (round_double 0.6) (float_mul (float_of_int (l - 1)) (round_double 0.05)))"
    using new_fall_speed_floor new_fall_speed_def by blast
  have p: "0 \<le> fst (clear_lines (make_grid (fst (merge_piece g))) (fst (merge_piece g)))"
    unfolding clear_lines_count by simp
  have b: "piece_wf (current g) \<and> (\<forall>r. 0 \<le> r \<and> r < ROWS \<longrightarrow> \<not> full_row (locked g) r) \<longrightarrow>
      fst (clear_lines (make_grid (fst (merge_piece g))) (fst (merge_piece g))) \<le> 4"
    using lock_clears_at_most_four by blast
  from lock_piece_stats_core [of g k] p b
  have c: "(let lk = fst (merge_piece g); n = fst (clear_lines (make_grid lk) lk); g' = lock_piece k g in
     (n \<noteq> 0 \<longrightarrow>
        score g' = score g + score_table_get n * level g \<and>
        lines g' = lines g + n \<and>
        level g' = (lines g + n) div 10 + 1 \<and>
        fall_speed g' = max (round_double 0.05)
            (float_sub (round_double 0.6) (float_mul (float_of_int (level g' - 1)) (round_double 0.05)))) \<and>
     (n = 0 \<longrightarrow>
        score g' = score g \<and> lines g' = lines g \<and> level g' = level g \<and>
        fall_speed g' = fall_speed g) \<and>
     0 \<le> n \<and>
     (piece_wf (current g) \<and> (\<forall>r. 0 \<le> r \<and> r < ROWS \<longrightarrow> \<not> full_row (locked g) r) \<longrightarrow> n \<le> 4))"
    unfolding Let_def by blast
  from c t m f show ?thesis by blast
qed

theorem lock_piece_stats_witness:
  "(let g = (reset KO KO)\<lparr>locked :=
              (\<lambda>(c, r). if (r = 18 \<or> r = 19) \<and> 0 \<le> c \<and> c < 10 \<and> c \<noteq> 4 \<and> c \<noteq> 5
                        then Some (0, 240, 240) else None),
             current := (Piece_init KO)\<lparr>py := 18\<rparr>, lines := 9\<rparr> in
     fst (clear_lines (make_grid (fst (merge_piece g))) (fst (merge_piece g))) = 2 \<and>
     score (lock_piece KO g) = 100 \<and> lines (lock_piece KO g) = 11 \<and>
     level (lock_piece KO g) = 2 \<and>
     fall_speed (lock_piece KO g) = 4953959590107545 / 2 ^ 53 \<and>
     fst (clear_lines (make_grid (fst (merge_piece (reset KO KO)))) (fst (merge_piece (reset KO KO)))) = 0 \<and>
     score (lock_piece KO (reset KO KO)) = 0 \<and> lines (lock_piece KO (reset KO KO)) = 0 \<and>
     level (lock_piece KO (reset KO KO)) = 1 \<and>
     fall_speed (lock_piece KO (reset KO KO)) = 5404319552844595 / 2 ^ 53)"
proof -
  define g where "g = (reset KO KO)\<lparr>locked :=
              (\<lambda>(c, r). if (r = 18 \<or> r = 19) \<and> 0 \<le> c \<and> c < 10 \<and> c \<noteq> 4 \<and> c \<noteq> 5
                        then Some (0, 240, 240) else None),
             current := (Piece_init KO)\<lparr>py := 18\<rparr>, lines := 9\<rparr>"
  define lk where "lk = fst (merge_piece g)"
  have cur: "shape (current g) = [''11'', ''11'']" "px (current g) = 4" "py (current g) = 18"
    "color (current g) = (240, 240, 0)" "score g = 0" "lines g = 9" "level g = 1"
    "locked g = (\<lambda>(c, r). if (r = 18 \<or> r = 19) \<and> 0 \<le> c \<and> c < 10 \<and> c \<noteq> 4 \<and> c \<noteq> 5
                        then Some (0, 240, 240) else None)"
    by (simp_all add: g_def reset_def get_new_piece_def Piece_init_def Let_def COLUMNS_def
        COLORS_def PIECE_KEYS_def)
  have lk: "lk (c, r) = (if (c = 4 \<or> c = 5) \<and> (r = 18 \<or> r = 19) then Some (240, 240, 0)
      else if (r = 18 \<or> r = 19) \<and> 0 \<le> c \<and> c < 10 then Some (0, 240, 240) else None)" for c r
    unfolding lk_def merge_piece_fst by (auto simp: cur shape_cells_O)
  have full: "full_row lk r \<longleftrightarrow> r = 18 \<or> r = 19" for r
  proof
    assume "full_row lk r"
    then have "lk (0, r) \<noteq> None" unfolding full_row_iff by (simp add: COLUMNS_def)
    then show "r = 18 \<or> r = 19" unfolding lk by (simp split: if_splits)
  next
    assume "r = 18 \<or> r = 19"
    then show "full_row lk r" unfolding full_row_iff lk by (auto simp: COLUMNS_def)
  qed
  have "{r. 0 \<le> r \<and> r < ROWS \<and> full_row lk r} = {18, 19}"
    unfolding full by (auto simp: ROWS_def)
  then have n: "fst (clear_lines (make_grid lk) lk) = 2"
    unfolding clear_lines_count by simp
  have 1: "score (lock_piece KO g) = 100 \<and> lines (lock_piece KO g) = 11 \<and>
     level (lock_piece KO g) = 2 \<and> fall_speed (lock_piece KO g) = new_fall_speed 2"
    using lock_piece_stats [of g KO, THEN conjunct1] n
    by (simp add: Let_def lk_def [symmetric] cur score_table_get_def new_fall_speed_def)
  define h where "h = reset KO KO"
  have hf: "score h = 0" "lines h = 0" "level h = 1" "fall_speed h = round_double 0.6"
    "locked h = Map.empty"
    "shape (current h) = [''11'', ''11'']" "px (current h) = 4" "py (current h) = - 2"
    by (simp_all add: h_def reset_def get_new_piece_def Piece_init_def Let_def COLUMNS_def)
  have hm: "fst (merge_piece h) = Map.empty"
    unfolding merge_piece_fst by (rule ext) (auto simp: hf shape_cells_O)
  have "\<forall>r. 0 \<le> r \<and> r < ROWS \<longrightarrow> \<not> full_row (Map.empty :: locked) r"
    by (auto simp: full_row_iff COLUMNS_def intro: exI [of _ 0])
  then have n0: "fst (clear_lines (make_grid (fst (merge_piece h))) (fst (merge_piece h))) = 0"
    unfolding hm by (simp add: clear_lines_none)
  have 2: "score (lock_piece KO h) = 0 \<and> lines (lock_piece KO h) = 0 \<and>
     level (lock_piece KO h) = 1 \<and> fall_speed (lock_piece KO h) = round_double 0.6"
    using lock_piece_stats [of h KO, THEN conjunct1] n0
    by (simp add: Let_def hf)
  have 3: "fst (clear_lines (make_grid (fst (merge_piece g))) (fst (merge_piece g))) = 2"
    using n by (simp add: lk_def)
  have 4: "fall_speed (lock_piece KO g) = 4953959590107545 / 2 ^ 53"
    using 1 unfolding new_fall_speed_2 by blast
  have 5: "fall_speed (lock_piece KO h) = 5404319552844595 / 2 ^ 53"
    using 2 unfolding rd_06 by blast
  show ?thesis unfolding Let_def
    unfolding g_def [symmetric]
    unfolding h_def [symmetric]
    by (intro conjI) (use 1 2 3 4 5 n0 in blast)+
qed

subsection \<open>The hard drop\<close>

lemma valid_space_row:
  assumes "valid_space sh x y lk" "r < length sh" "c < length (sh ! r)" "sh ! r ! c = CHR ''1''"
  shows "y + int r < ROWS"
  using assms unfolding valid_space_cells by blast

lemma drop_loop_terminates:
  assumes r: "r < length sh" and c: "c < length (sh ! r)" and ch: "sh ! r ! c = CHR ''1''"
  shows "\<exists>y'. drop_loop sh x y lk = Some y' \<and> y \<le> y' \<and>
              (y < y' \<longrightarrow> y' + int r < ROWS) \<and> \<not> valid_space sh x (y' + 1) lk"
proof (induction "nat (ROWS - (y + int r))" arbitrary: y rule: less_induct)
  case less
  show ?case
  proof (cases "valid_space sh x (y + 1) lk")
    case False
    then have "drop_loop sh x y lk = Some y" by (subst drop_loop.simps) simp
    then show ?thesis using False by simp
  next
    case True
    then have b: "y + 1 + int r < ROWS" by (rule valid_space_row [OF _ r c ch])
    then have "nat (ROWS - (y + 1 + int r)) < nat (ROWS - (y + int r))" by simp
    from less [OF this] obtain y' where y': "drop_loop sh x (y + 1) lk = Some y'" "y + 1 \<le> y'"
        "y + 1 < y' \<longrightarrow> y' + int r < ROWS" "\<not> valid_space sh x (y' + 1) lk"
      by blast
    have "drop_loop sh x y lk = Some y'" using True y'(1) by (subst drop_loop.simps) simp
    moreover have "y' + int r < ROWS" using y'(2,3) b by (cases "y + 1 = y'") auto
    ultimately show ?thesis using y'(2,4) by auto
  qed
qed

lemma shapes_have_low_cell:
  "list_all (\<lambda>sh. list_ex (\<lambda>(cx, cy). int (length (TETROMINOES k ! 0)) \<le> cy + 3) (shape_cells sh 0 0))
     (TETROMINOES k)"
  by (cases k) (simp_all add: shape_cells_def)

lemma piece_low_cell:
  assumes "piece_wf p"
  shows "\<exists>r c. r < length (shape p) \<and> c < length (shape p ! r) \<and> shape p ! r ! c = CHR ''1'' \<and>
               int (length (rotations p ! 0)) \<le> int r + 3"
proof -
  have rt: "rotations p = TETROMINOES (ptype p)" and r0: "0 \<le> rotation p"
    and r1: "rotation p < int (length (rotations p))"
    and sh: "shape p = rotations p ! nat (rotation p)"
    using assms unfolding piece_wf_def by blast+
  have "nat (rotation p) < length (rotations p)" using r0 r1 by linarith
  then have "rotations p ! nat (rotation p) \<in> set (rotations p)" by (rule nth_mem)
  then have "shape p \<in> set (TETROMINOES (ptype p))" unfolding sh rt .
  then have "list_ex (\<lambda>(cx, cy). int (length (TETROMINOES (ptype p) ! 0)) \<le> cy + 3) (shape_cells (shape p) 0 0)"
    using shapes_have_low_cell [of "ptype p"] by (simp add: list_all_iff)
  then obtain cx cy where "(cx, cy) \<in> set (shape_cells (shape p) 0 0)"
      "int (length (TETROMINOES (ptype p) ! 0)) \<le> cy + 3"
    by (auto simp: list_ex_iff)
  then show ?thesis unfolding in_set_shape_cells rt by auto
qed

lemma I_spawn_drop: "drop_loop (shape (Piece_init KI)) (px (Piece_init KI)) (py (Piece_init KI)) Map.empty = Some 18"
  by (simp add: drop_loop.simps Piece_init_def Let_def valid_space_def shape_cells_def COLUMNS_def ROWS_def)

text \<open>
  Claim C7, as the code has it. For a piece in the state the class keeps, at any
  position and on any board, the loop of \<^verbatim>\<open>hard_drop\<close> ends, at a row from which the
  piece cannot move down, and \<^verbatim>\<open>hard_drop\<close> then locks the piece there. For a piece
  at or below the row where it was spawned the loop takes at most \<open>ROWS + 2\<close> steps.
\<close>

theorem hard_drop_terminates:
  assumes wf: "piece_wf (current g)"
  shows "\<exists>y'. drop_loop (shape (current g)) (px (current g)) (py (current g)) (locked g) = Some y' \<and>
              py (current g) \<le> y' \<and>
              \<not> valid_space (shape (current g)) (px (current g)) (y' + 1) (locked g) \<and>
              hard_drop k g = Some (lock_piece k (g\<lparr>current := (current g)\<lparr>py := y'\<rparr>\<rparr>)) \<and>
              (- int (length (rotations (current g) ! 0)) \<le> py (current g) \<longrightarrow>
                 y' - py (current g) \<le> ROWS + 2)"
proof -
  from piece_low_cell [OF wf] obtain r c where rc: "r < length (shape (current g))"
      "c < length (shape (current g) ! r)" "shape (current g) ! r ! c = CHR ''1''"
      "int (length (rotations (current g) ! 0)) \<le> int r + 3"
    by blast
  from drop_loop_terminates [OF rc(1,2,3), of "px (current g)" "py (current g)" "locked g"]
  obtain y' where y': "drop_loop (shape (current g)) (px (current g)) (py (current g)) (locked g) = Some y'"
      "py (current g) \<le> y'" "py (current g) < y' \<longrightarrow> y' + int r < ROWS"
      "\<not> valid_space (shape (current g)) (px (current g)) (y' + 1) (locked g)"
    by blast
  have h: "hard_drop k g = Some (lock_piece k (g\<lparr>current := (current g)\<lparr>py := y'\<rparr>\<rparr>))"
    by (simp add: hard_drop_def y'(1))
  have b: "y' - py (current g) \<le> ROWS + 2"
    if "- int (length (rotations (current g) ! 0)) \<le> py (current g)"
  proof (cases "py (current g) < y'")
    case True
    then have "y' + int r < ROWS" using y'(3) by blast
    then show ?thesis using that rc(4) by linarith
  next
    case False
    then show ?thesis using y'(2) by (simp add: ROWS_def)
  qed
  show ?thesis using y'(1,2,4) h b by blast
qed

theorem hard_drop_terminates_witness:
  "piece_wf (current (reset KI KI)) \<and>
   - int (length (rotations (current (reset KI KI)) ! 0)) \<le> py (current (reset KI KI)) \<and>
   drop_loop (shape (current (reset KI KI))) (px (current (reset KI KI))) (py (current (reset KI KI)))
     (locked (reset KI KI)) = Some 18 \<and>
   18 - py (current (reset KI KI)) = ROWS + 2 \<and>
   hard_drop KI (reset KI KI) =
     Some (lock_piece KI ((reset KI KI)\<lparr>current := (current (reset KI KI))\<lparr>py := 18\<rparr>\<rparr>))"
proof -
  define g where "g = reset KI KI"
  have cur: "current g = Piece_init KI" "locked g = Map.empty"
    by (simp_all add: g_def reset_def get_new_piece_def)
  have wf: "piece_wf (current g)" unfolding cur by (rule piece_wf_init)
  have d: "drop_loop (shape (current g)) (px (current g)) (py (current g)) (locked g) = Some 18"
    unfolding cur by (rule I_spawn_drop)
  from hard_drop_terminates [OF wf, of KI] obtain y' where
    y': "drop_loop (shape (current g)) (px (current g)) (py (current g)) (locked g) = Some y'"
      "hard_drop KI g = Some (lock_piece KI (g\<lparr>current := (current g)\<lparr>py := y'\<rparr>\<rparr>))"
    by blast
  have "y' = 18" using y'(1) d by simp
  then have h: "hard_drop KI g = Some (lock_piece KI (g\<lparr>current := (current g)\<lparr>py := 18\<rparr>\<rparr>))"
    using y'(2) by simp
  have p: "- int (length (rotations (current g) ! 0)) \<le> py (current g)"
    "18 - py (current g) = ROWS + 2"
    unfolding cur by (simp_all add: Piece_init_def Let_def ROWS_def)
  show ?thesis unfolding g_def [symmetric] using wf p d h by blast
qed

text \<open>
  The bound of \<open>ROWS\<close> steps in the claim is too small: the I piece is spawned at row
  \<open>-4\<close> and on the empty board it stops at row 18, after 22 steps.
\<close>

theorem hard_drop_steps_counterexample:
  "piece_wf (Piece_init KI) \<and>
   drop_loop (shape (Piece_init KI)) (px (Piece_init KI)) (py (Piece_init KI)) Map.empty = Some 18 \<and>
   py (Piece_init KI) = - 4 \<and> \<not> (18 - py (Piece_init KI) \<le> ROWS)"
  using piece_wf_init [of KI] I_spawn_drop by (simp add: Piece_init_def Let_def ROWS_def)

subsection \<open>Events after the game is over\<close>

lemma no_full_row_clear:
  assumes "\<And>r. lk (0, r) = None"
  shows "clear_lines (make_grid lk) lk = (0, lk)"
proof (rule clear_lines_none, intro allI impI)
  fix r
  have "\<not> (0 \<le> (0::int) \<and> (0::int) < COLUMNS \<longrightarrow> lk (0, r) \<noteq> None)"
    using assms [of r] by (simp add: COLUMNS_def)
  then show "\<not> full_row lk r" unfolding full_row_iff by blast
qed

text \<open>
  Claim C4 says that once the game is over no further input or gravity step changes
  the board or the current piece, also for events that arrive later in the same frame.
  The event loop of \<^verbatim>\<open>run\<close> does not test the flag after \<^verbatim>\<open>hard_drop\<close>, as the gravity
  step does after its lock. With columns 4 and 5 full, the frame with the keys space,
  left, left, space sets the flag at the first key; the two moves and the second hard
  drop are still applied, and the second piece is stored in the board.
\<close>

theorem hard_drop_after_game_over:
  "(let g = (reset KO KO)\<lparr>locked :=
              (\<lambda>(c, r). if (c = 4 \<or> c = 5) \<and> 0 \<le> r \<and> r < 20 then Some (240, 240, 0) else None)\<rparr>;
        g1 = lock_piece KO g;
        g2 = move_left (move_left g1);
        g3 = lock_piece KO (g2\<lparr>current := (current g2)\<lparr>py := 18\<rparr>\<rparr>)
    in \<not> game_over g \<and>
       handle_events [(KEYDOWN K_SPACE, KO)] g = Some (Running g1) \<and>
       game_over g1 \<and> locked g1 (2, 19) = None \<and> px (current g1) = 4 \<and>
       handle_events [(KEYDOWN K_SPACE, KO), (KEYDOWN K_LEFT, KO), (KEYDOWN K_LEFT, KO),
                      (KEYDOWN K_SPACE, KO)] g = Some (Running g3) \<and>
       px (current g2) = 2 \<and> locked g3 (2, 19) = Some (240, 240, 0) \<and>
       frame \<lparr>events = [(KEYDOWN K_SPACE, KO), (KEYDOWN K_LEFT, KO), (KEYDOWN K_LEFT, KO),
                        (KEYDOWN K_SPACE, KO)], gravity_due = False, gravity_key = KO\<rparr> g =
         Some (Running g3))"
proof -
  define st :: locked where
    "st = (\<lambda>(c, r). if (c = 4 \<or> c = 5) \<and> 0 \<le> r \<and> r < 20 then Some (240, 240, 0) else None)"
  define g where "g = (reset KO KO)\<lparr>locked := st\<rparr>"
  define g1 where "g1 = lock_piece KO g"
  define g2 where "g2 = move_left (move_left g1)"
  define g3 where "g3 = lock_piece KO (g2\<lparr>current := (current g2)\<lparr>py := 18\<rparr>\<rparr>)"
  have PO: "Piece_init KO = \<lparr>ptype = KO, rotations = [[''11'', ''11'']], rotation = 0,
      shape = [''11'', ''11''], px = 4, py = - 2, color = (240, 240, 0)\<rparr>"
    by (simp add: Piece_init_def Let_def COLUMNS_def COLORS_def PIECE_KEYS_def)
  have gf: "current g = Piece_init KO" "next_piece g = Piece_init KO" "locked g = st"
    "game_over g = False"
    by (simp_all add: g_def reset_def get_new_piece_def)
  have d0: "drop_loop (shape (current g)) (px (current g)) (py (current g)) (locked g) = Some (- 2)"
    unfolding gf PO
    by (subst drop_loop.simps)
       (simp add: valid_space_def shape_cells_O st_def COLUMNS_def ROWS_def)
  have "g\<lparr>current := (current g)\<lparr>py := - 2\<rparr>\<rparr> = g" by (simp add: gf PO)
  then have h1: "hard_drop KO g = Some g1" by (simp add: hard_drop_def d0 g1_def)
  have e1: "handle_events [(KEYDOWN K_SPACE, KO)] g = Some (Running g1)" by (simp add: h1)
  have m1: "fst (merge_piece g) = st"
    unfolding merge_piece_fst by (rule ext) (auto simp: gf PO shape_cells_O)
  have st0: "st (0, r) = None" for r by (simp add: st_def)
  have l1: "locked g1 = st"
    unfolding g1_def locked_lock_piece m1 by (simp add: no_full_row_clear [of st, OF st0])
  have o1: "game_over g1"
    unfolding g1_def game_over_lock_piece merge_piece_snd by (simp add: gf PO shape_cells_O)
  have c1: "current g1 = Piece_init KO"
    unfolding g1_def lock_piece_eq by (simp add: gf)
  have v: "valid_space [''11'', ''11''] x (- 2) st" if "0 \<le> x" "x < 9" for x
    using that by (simp add: valid_space_def shape_cells_O COLUMNS_def ROWS_def)
  have ml1: "move_left g1 = g1\<lparr>current := (Piece_init KO)\<lparr>px := 3\<rparr>\<rparr>"
    unfolding move_left_def c1 l1 by (simp add: PO v)
  have ml2: "g2 = g1\<lparr>current := (Piece_init KO)\<lparr>px := 2\<rparr>\<rparr>"
    unfolding g2_def ml1 unfolding move_left_def by (simp add: l1 PO v)
  have c2: "current g2 = (Piece_init KO)\<lparr>px := 2\<rparr>" "locked g2 = st"
    by (simp_all add: ml2 l1)
  have d2: "drop_loop (shape (current g2)) (px (current g2)) (py (current g2)) (locked g2) = Some 18"
    unfolding c2 PO
    by (simp add: drop_loop.simps valid_space_def shape_cells_O st_def COLUMNS_def ROWS_def)
  have h2: "hard_drop KO g2 = Some g3" by (simp add: hard_drop_def d2 g3_def)
  have e4: "handle_events [(KEYDOWN K_SPACE, KO), (KEYDOWN K_LEFT, KO), (KEYDOWN K_LEFT, KO),
                      (KEYDOWN K_SPACE, KO)] g = Some (Running g3)"
    by (simp add: h1 h2 g2_def [symmetric])
  define lk3 where "lk3 = fst (merge_piece (g2\<lparr>current := (current g2)\<lparr>py := 18\<rparr>\<rparr>))"
  have lk3: "lk3 (c, r) = (if (c = 2 \<or> c = 3) \<and> (r = 18 \<or> r = 19) then Some (240, 240, 0) else st (c, r))" for c r
    unfolding lk3_def merge_piece_fst by (auto simp: c2 PO shape_cells_O)
  have "lk3 (0, r) = None" for r unfolding lk3 by (simp add: st_def)
  then have "clear_lines (make_grid lk3) lk3 = (0, lk3)" by (rule no_full_row_clear)
  then have l3: "locked g3 = lk3"
    unfolding g3_def locked_lock_piece lk3_def [symmetric] by simp
  have r3: "locked g3 (2, 19) = Some (240, 240, 0)" unfolding l3 lk3 by simp
  have r1: "locked g1 (2, 19) = None" unfolding l1 by (simp add: st_def)
  have f: "frame \<lparr>events = [(KEYDOWN K_SPACE, KO), (KEYDOWN K_LEFT, KO), (KEYDOWN K_LEFT, KO),
                        (KEYDOWN K_SPACE, KO)], gravity_due = False, gravity_key = KO\<rparr> g =
         Some (Running g3)"
    unfolding frame_def using e4 by simp
  have p1: "px (current g1) = 4" by (simp add: c1 PO)
  have p2: "px (current g2) = 2" by (simp add: c2)
  have ng: "\<not> game_over g" by (simp add: gf)
  show ?thesis
    unfolding Let_def st_def [symmetric]
    unfolding g_def [symmetric]
    unfolding g1_def [symmetric]
    unfolding g2_def [symmetric]
    unfolding g3_def [symmetric]
    by (intro conjI ng e1 o1 r1 p1 e4 p2 r3 f)
qed

end
